theory Spec2Isabelle
  imports Complex_Main
begin

section \<open>Values, documents and the calls the script makes\<close>

text \<open>
  The program is one Streamlit script, \<^verbatim>\<open>src/main.py\<close>: it opens the uploaded PDF with
  PyMuPDF, walks the requested pages, translates every text block through a memoized
  call of the translation provider and draws a white rectangle and the translated text
  over the block, all tagged with one optional-content group.

  The script's own control flow is embedded as HOL functions. The three libraries it
  drives (PyMuPDF, deep-translator, Streamlit) are not part of the repository: whether a
  library call raises, and what the provider returns, is decided by an environment
  \<open>env\<close> that every theorem quantifies over. Each environment function sees the trace
  of all calls made so far, so a library may answer the same call differently the second
  time.
\<close>

text \<open>
  A Python value as far as the script looks at it: a \<^verbatim>\<open>str\<close>, a number (block
  coordinates; the script copies them and never computes with them) or \<^verbatim>\<open>None\<close>.
  A \<open>char\<close> stands for one code point below 256.
\<close>

datatype pyval = PStr string | PNum rat | PNone

text \<open>A block is the tuple \<^verbatim>\<open>(x0, y0, x1, y1, text, block_no, block_type)\<close> of
  \<^verbatim>\<open>page.get_text("blocks")\<close>; the script reads it with \<^verbatim>\<open>block[:4]\<close>,
  \<^verbatim>\<open>len(block)\<close> and \<^verbatim>\<open>block[4]\<close> only, so any tuple is allowed.\<close>

type_synonym block = "pyval list"
type_synonym bbox = "pyval list"

datatype exn = Exn string

text \<open>
  What a successful drawing call adds to a page. The last component is the \<^verbatim>\<open>oc\<close>
  argument (the xref of the optional-content group). The arguments that are constants
  in the source are not stored: \<^verbatim>\<open>color=None, fill=WHITE\<close> for the rectangle,
  \<^verbatim>\<open>color=BLACK, align=0, render_mode=0, overlay=True\<close> for the text box. The
  style sheet of \<^verbatim>\<open>insert_htmlbox\<close> is a fixed text around the two numbers
  \<^verbatim>\<open>min_font_size\<close> and \<^verbatim>\<open>line_height\<close>, which stand for it.
\<close>

datatype item =
    Rect bbox int
  | Textbox bbox string rat int
  | Htmlbox bbox string rat rat int

fun item_oc :: "item \<Rightarrow> int" where
  "item_oc (Rect b oc) = oc"
| "item_oc (Textbox b t fs oc) = oc"
| "item_oc (Htmlbox b h fs lh oc) = oc"

text \<open>
  A page: \<open>content\<close> is the block list that text extraction yields for the page as it
  was uploaded, \<open>overlay\<close> the items drawn onto it since, in drawing order.
\<close>

record page =
  content :: "block list"
  overlay :: "item list"

record document =
  pages :: "page list"
  ocgs :: "(int \<times> string) list"
  is_closed :: bool

text \<open>
  The calls that leave the script. The Streamlit display calls carry their arguments;
  \<open>StProgress n d\<close> is \<^verbatim>\<open>progress.progress(int((n / d) * 100))\<close>, kept as the
  two integers of the quotient.
\<close>

datatype call =
    StError string
  | StException exn
  | StStop
  | StStatus int int
  | StProgress int int
  | StSuccess
  | StDownload
  | FitzOpen
  | AddOcg string
  | LoadPage int
  | GetText int
  | Translate string string string
  | DrawRect int bbox int
  | InsertTextbox int bbox string rat int
  | InsertHtmlbox int bbox string rat rat int
  | SubsetFonts
  | EzSave
  | Close

text \<open>An event is a call with its outcome: \<open>True\<close> when it returned, \<open>False\<close>
  when it raised.\<close>

type_synonym event = "call \<times> bool"

record env =
  fitz_open :: "string \<Rightarrow> exn + document"
  add_ocg :: "event list \<Rightarrow> string \<Rightarrow> exn + int"
  provider :: "event list \<Rightarrow> string \<Rightarrow> string \<Rightarrow> string \<Rightarrow> exn + pyval"
  fails :: "event list \<Rightarrow> call \<Rightarrow> exn option"

text \<open>The sidebar and the two page inputs (lines 15-29).\<close>

record settings =
  target_lang :: string
  source_lang :: string
  min_font_size :: rat
  line_height :: rat
  use_textbox :: bool
  start_page :: int
  end_page :: int

text \<open>
  The state the script works on: the open document, the process-wide cache of
  \<^verbatim>\<open>st.cache_data\<close> (keyed by the arguments \<^verbatim>\<open>(text, src, tgt)\<close>, newest entry
  first) and the trace of calls.
\<close>

record state =
  doc :: document
  cache :: "((string \<times> string \<times> string) \<times> pyval) list"
  trace :: "event list"

datatype outcome = Completed | Stopped | Crashed exn


section \<open>Helpers (lines 33-46)\<close>

text \<open>\<^verbatim>\<open>str.isspace\<close> on the code points below 256.\<close>

definition isspace :: "char \<Rightarrow> bool" where
  "isspace c = (of_char c \<in> {9, 10, 11, 12, 13, 28, 29, 30, 31, 32, 133, 160 :: nat})"

definition strip :: "string \<Rightarrow> string" where
  "strip s = rev (dropWhile isspace (rev (dropWhile isspace s)))"

text \<open>\<^verbatim>\<open>s.replace(c, new)\<close> for a pattern of one character.\<close>

definition replace_char :: "char \<Rightarrow> string \<Rightarrow> string \<Rightarrow> string" where
  "replace_char c new s = concat (map (\<lambda>x. if x = c then new else [x]) s)"

text \<open>\<^verbatim>\<open>html.escape(s)\<close> with \<^verbatim>\<open>quote=True\<close>: five replacements, the ampersand
  first.\<close>

definition html_escape :: "string \<Rightarrow> string" where
  "html_escape s =
     replace_char (CHR 0x27) ''&#x27;''
       (replace_char (CHR 0x22) ''&quot;''
         (replace_char (CHR ''>'') ''&gt;''
           (replace_char (CHR ''<'') ''&lt;''
             (replace_char (CHR ''&'') ''&amp;'' s))))"

definition text_to_html :: "string \<Rightarrow> string" where
  "text_to_html s =
     ''<div class='' @ [CHR 0x27] @ ''id-text'' @ [CHR 0x27] @ ''>''
       @ replace_char (CHR 0x0A) ''<br>'' (html_escape s) @ ''</div>''"

definition emit :: "call \<Rightarrow> bool \<Rightarrow> state \<Rightarrow> state" where
  "emit c ok st = st\<lparr>trace := trace st @ [(c, ok)]\<rparr>"

text \<open>A page object comes from \<^verbatim>\<open>doc[pno]\<close>, so only a page of the document can be
  drawn on.\<close>

definition add_item :: "int \<Rightarrow> item \<Rightarrow> document \<Rightarrow> document" where
  "add_item pno it d =
     (if 0 \<le> pno \<and> pno < int (length (pages d))
      then d\<lparr>pages := (pages d)[nat pno :=
             (pages d ! nat pno)\<lparr>overlay := overlay (pages d ! nat pno) @ [it]\<rparr>]\<rparr>
      else d)"

text \<open>
  What a call does to the document when it returns. A drawing call appends its item to
  the addressed page; \<^verbatim>\<open>doc.close()\<close> closes the document; every other call leaves
  the document as it is. (\<^verbatim>\<open>insert_textbox\<close> returns a negative number, which the
  script ignores, when the text did not fit; the item then stands for a call that
  returned, not for visible text.) A call that raises changes nothing.
\<close>

fun effect :: "call \<Rightarrow> document \<Rightarrow> document" where
  "effect (DrawRect pno b oc) d = add_item pno (Rect b oc) d"
| "effect (InsertTextbox pno b t fs oc) d = add_item pno (Textbox b t fs oc) d"
| "effect (InsertHtmlbox pno b h fs lh oc) d = add_item pno (Htmlbox b h fs lh oc) d"
| "effect Close d = d\<lparr>is_closed := True\<rparr>"
| "effect c d = d"

text \<open>One library call that may raise: the environment decides, the trace records it.\<close>

definition attempt :: "env \<Rightarrow> call \<Rightarrow> state \<Rightarrow> exn option \<times> state" where
  "attempt env c st =
     (case fails env (trace st) c of
        None \<Rightarrow> (None, (emit c True st)\<lparr>doc := effect c (doc st)\<rparr>)
      | Some e \<Rightarrow> (Some e, emit c False st))"

text \<open>
  Lines 39-41, the function under the decorator: the provider is built with the source
  language (\<^verbatim>\<open>"auto"\<close> when the setting is blank) and asked for the translation.
  Building the translator and the request are one provider call.
\<close>

definition translate_source :: "string \<Rightarrow> string" where
  "translate_source src = (if strip src \<noteq> [] then src else ''auto'')"

definition translate_fn :: "env \<Rightarrow> event list \<Rightarrow> string \<Rightarrow> string \<Rightarrow> string \<Rightarrow> exn + pyval" where
  "translate_fn env tr text src tgt = provider env tr (translate_source src) tgt text"

text \<open>
  Line 38, \<^verbatim>\<open>_translate\<close> as the script calls it, under \<^verbatim>\<open>@st.cache_data\<close>: a
  cached value is returned without running the function; otherwise the function runs,
  a returned value is stored under the arguments, and an exception passes to the caller
  with nothing stored.
\<close>

definition translate :: "env \<Rightarrow> string \<Rightarrow> string \<Rightarrow> string \<Rightarrow> state \<Rightarrow> (exn + pyval) \<times> state" where
  "translate env text src tgt st =
     (case map_of (cache st) (text, src, tgt) of
        Some v \<Rightarrow> (Inr v, st)
      | None \<Rightarrow>
          (case translate_fn env (trace st) text src tgt of
             Inl e \<Rightarrow> (Inl e, emit (Translate (translate_source src) tgt text) False st)
           | Inr v \<Rightarrow>
               (Inr v, (emit (Translate (translate_source src) tgt text) True st)
                          \<lparr>cache := ((text, src, tgt), v) # cache st\<rparr>)))"


section \<open>The run handler (lines 49-176)\<close>

text \<open>Lines 88-89.\<close>

definition block_bbox :: "block \<Rightarrow> bbox" where
  "block_bbox b = take 4 b"

definition block_text :: "block \<Rightarrow> pyval" where
  "block_text b = (if length b > 4 then b ! 4 else PStr [])"

text \<open>Lines 109-148: the placement of the translated text, with its handler.\<close>

definition place_text :: "env \<Rightarrow> settings \<Rightarrow> int \<Rightarrow> int \<Rightarrow> bbox \<Rightarrow> string \<Rightarrow> state \<Rightarrow> state" where
  "place_text env cfg ocg pno b translated st =
     (case attempt env
             (if use_textbox cfg
              then InsertTextbox pno b translated (min_font_size cfg) ocg
              else InsertHtmlbox pno b (text_to_html translated)
                     (min_font_size cfg) (line_height cfg) ocg) st of
        (None, st1) \<Rightarrow> st1
      | (Some e, st1) \<Rightarrow>
          snd (attempt env (InsertTextbox pno b translated (min_font_size cfg) ocg) st1))"

text \<open>Lines 87-148: the body of the loop over the blocks of a page.\<close>

definition process_block :: "env \<Rightarrow> settings \<Rightarrow> int \<Rightarrow> int \<Rightarrow> block \<Rightarrow> state \<Rightarrow> state" where
  "process_block env cfg ocg pno blk st =
     (case block_text blk of
        PStr s \<Rightarrow>
          if strip s = [] then st
          else
            (case translate env s (source_lang cfg) (target_lang cfg) st of
               (r, st1) \<Rightarrow>
                 (case (case r of Inl e \<Rightarrow> PStr s | Inr v \<Rightarrow> v) of
                    PStr t \<Rightarrow>
                      (case attempt env (DrawRect pno (block_bbox blk) ocg) st1 of
                         (Some e, st2) \<Rightarrow> st2
                       | (None, st2) \<Rightarrow> place_text env cfg ocg pno (block_bbox blk) t st2)
                  | _ \<Rightarrow> st1))
      | _ \<Rightarrow> st)"

text \<open>
  Lines 79-151: one page. \<^verbatim>\<open>doc[pno]\<close> stands outside every handler, so an exception
  there ends the run; an index outside the document raises. A failing extraction gives
  the empty block list.
\<close>

definition process_page :: "env \<Rightarrow> settings \<Rightarrow> int \<Rightarrow> int \<Rightarrow> int \<Rightarrow> int \<Rightarrow> state \<Rightarrow> exn option \<times> state" where
  "process_page env cfg ocg first_idx last_idx pno st =
     (if pno < 0 \<or> int (length (pages (doc st))) \<le> pno
      then (Some (Exn ''IndexError''), emit (LoadPage pno) False st)
      else
        (case attempt env (LoadPage pno) st of
           (Some e, st1) \<Rightarrow> (Some e, st1)
         | (None, st1) \<Rightarrow>
             (case attempt env (GetText pno) (emit (StStatus (pno + 1) (last_idx + 1)) True st1) of
                (r, st2) \<Rightarrow>
                  (None,
                   emit (StProgress (pno - first_idx + 1) (last_idx - first_idx + 1)) True
                     (fold (process_block env cfg ocg pno)
                        (case r of None \<Rightarrow> content (pages (doc st2) ! nat pno) | Some e \<Rightarrow> [])
                        st2)))))"

text \<open>Line 78: the loop over \<^verbatim>\<open>range(first_idx, last_idx + 1)\<close>, given as a list.\<close>

fun process_pages :: "env \<Rightarrow> settings \<Rightarrow> int \<Rightarrow> int \<Rightarrow> int \<Rightarrow> int list \<Rightarrow> state \<Rightarrow> exn option \<times> state" where
  "process_pages env cfg ocg first_idx last_idx [] st = (None, st)"
| "process_pages env cfg ocg first_idx last_idx (pno # rest) st =
     (case process_page env cfg ocg first_idx last_idx pno st of
        (Some e, st1) \<Rightarrow> (Some e, st1)
      | (None, st1) \<Rightarrow> process_pages env cfg ocg first_idx last_idx rest st1)"

text \<open>
  Lines 153-176: font subsetting (an exception is swallowed), the export, which stands
  outside every handler, then \<^verbatim>\<open>doc.close()\<close> and the download button.
\<close>

definition finish :: "env \<Rightarrow> state \<Rightarrow> outcome \<times> state" where
  "finish env st =
     (case attempt env EzSave (snd (attempt env SubsetFonts st)) of
        (Some e, st1) \<Rightarrow> (Crashed e, st1)
      | (None, st1) \<Rightarrow>
          (Completed,
           emit StDownload True
             (emit StSuccess True ((emit Close True st1)\<lparr>doc := effect Close (doc st1)\<rparr>))))"

text \<open>Lines 65-66.\<close>

definition first_index :: "settings \<Rightarrow> int" where
  "first_index cfg = max 0 (start_page cfg - 1)"

definition last_index :: "settings \<Rightarrow> int \<Rightarrow> int" where
  "last_index cfg total_pages =
     (if end_page cfg = 0 then total_pages - 1 else min (total_pages - 1) (end_page cfg - 1))"

definition layer_name :: "settings \<Rightarrow> string" where
  "layer_name cfg = ''Translated('' @ target_lang cfg @ '')''"

text \<open>
  Lines 62-176: the run on an open document. \<^verbatim>\<open>st.stop()\<close> ends the script;
  \<^verbatim>\<open>doc.add_ocg\<close> stands outside every handler.
\<close>

definition pipeline :: "env \<Rightarrow> settings \<Rightarrow> state \<Rightarrow> outcome \<times> state" where
  "pipeline env cfg st =
     (if first_index cfg > last_index cfg (int (length (pages (doc st))))
      then (Stopped, emit StStop True (emit (StError ''Invalid page range.'') True st))
      else
        (case add_ocg env (trace st) (layer_name cfg) of
           Inl e \<Rightarrow> (Crashed e, emit (AddOcg (layer_name cfg)) False st)
         | Inr ocg \<Rightarrow>
             (case process_pages env cfg ocg
                     (first_index cfg) (last_index cfg (int (length (pages (doc st)))))
                     [first_index cfg .. last_index cfg (int (length (pages (doc st))))]
                     ((emit (AddOcg (layer_name cfg)) True st)
                        \<lparr>doc := (doc st)\<lparr>ocgs := ocgs (doc st) @ [(ocg, layer_name cfg)]\<rparr>\<rparr>) of
                (Some e, st1) \<Rightarrow> (Crashed e, st1)
              | (None, st1) \<Rightarrow> finish env st1)))"

text \<open>
  Lines 49-60: the button, the upload check and the parse of the uploaded bytes. The
  result is \<open>None\<close> when the button was not pressed.
\<close>

definition main :: "env \<Rightarrow> settings \<Rightarrow> bool \<Rightarrow> (string \<times> string) option
    \<Rightarrow> ((string \<times> string \<times> string) \<times> pyval) list \<Rightarrow> (outcome \<times> event list \<times> state option) option" where
  "main env cfg run uploaded c =
     (if \<not> run then None
      else
        (case uploaded of
           None \<Rightarrow> Some (Stopped, [(StError ''Please upload a PDF first.'', True), (StStop, True)], None)
         | Some (name, data) \<Rightarrow>
             (case fitz_open env data of
                Inl e \<Rightarrow> Some (Stopped, [(FitzOpen, False), (StException e, True), (StStop, True)], None)
              | Inr d \<Rightarrow>
                  (case pipeline env cfg \<lparr>doc = d, cache = c, trace = [(FitzOpen, True)]\<rparr> of
                     (out, st) \<Rightarrow> Some (out, trace st, Some st)))))"

section \<open>Notions used to state the properties\<close>

text \<open>The page a call addresses, if it addresses one.\<close>

fun call_page :: "call \<Rightarrow> int option" where
  "call_page (LoadPage p) = Some p"
| "call_page (GetText p) = Some p"
| "call_page (DrawRect p b oc) = Some p"
| "call_page (InsertTextbox p b t fs oc) = Some p"
| "call_page (InsertHtmlbox p b h fs lh oc) = Some p"
| "call_page c = None"

fun is_translate :: "call \<Rightarrow> bool" where
  "is_translate (Translate s t x) = True"
| "is_translate c = False"

fun is_add_ocg :: "call \<Rightarrow> bool" where
  "is_add_ocg (AddOcg n) = True"
| "is_add_ocg c = False"

fun is_insert_textbox :: "call \<Rightarrow> bool" where
  "is_insert_textbox (InsertTextbox p b t fs oc) = True"
| "is_insert_textbox c = False"

text \<open>
  The calls of the page loop other than the provider call, for the layer \<open>ocg\<close> and
  the pages \<open>lo\<close> to \<open>hi\<close>: every call that names a page names one in the range, and
  every drawing call carries the layer.
\<close>

fun loop_call :: "int \<Rightarrow> int \<Rightarrow> int \<Rightarrow> call \<Rightarrow> bool" where
  "loop_call ocg lo hi (LoadPage p) = (lo \<le> p \<and> p \<le> hi)"
| "loop_call ocg lo hi (GetText p) = (lo \<le> p \<and> p \<le> hi)"
| "loop_call ocg lo hi (DrawRect p b oc) = (lo \<le> p \<and> p \<le> hi \<and> oc = ocg)"
| "loop_call ocg lo hi (InsertTextbox p b t fs oc) = (lo \<le> p \<and> p \<le> hi \<and> oc = ocg)"
| "loop_call ocg lo hi (InsertHtmlbox p b h fs lh oc) = (lo \<le> p \<and> p \<le> hi \<and> oc = ocg)"
| "loop_call ocg lo hi (StStatus a b) = True"
| "loop_call ocg lo hi (StProgress a b) = True"
| "loop_call ocg lo hi c = False"

text \<open>
  The steps the page loop is made of: a display call, a library call that may raise, and
  a memoized translation with the run's two language settings.
\<close>

inductive steps :: "env \<Rightarrow> settings \<Rightarrow> int \<Rightarrow> int \<Rightarrow> int \<Rightarrow> state \<Rightarrow> state \<Rightarrow> bool"
  for env :: env and cfg :: settings and ocg :: int and lo :: int and hi :: int
  where
    steps_refl: "steps env cfg ocg lo hi st st"
  | steps_emit: "steps env cfg ocg lo hi st st1 \<Longrightarrow> loop_call ocg lo hi c
       \<Longrightarrow> steps env cfg ocg lo hi st (emit c ok st1)"
  | steps_attempt: "steps env cfg ocg lo hi st st1 \<Longrightarrow> loop_call ocg lo hi c
       \<Longrightarrow> steps env cfg ocg lo hi st (snd (attempt env c st1))"
  | steps_translate: "steps env cfg ocg lo hi st st1
       \<Longrightarrow> steps env cfg ocg lo hi st
             (snd (translate env x (source_lang cfg) (target_lang cfg) st1))"

text \<open>
  \<open>doc_ext ocg lo hi d d'\<close>: the document \<open>d'\<close> is \<open>d\<close> with items of the layer
  \<open>ocg\<close> appended to pages \<open>lo\<close> to \<open>hi\<close>, and nothing else changed.
\<close>

definition doc_ext :: "int \<Rightarrow> int \<Rightarrow> int \<Rightarrow> document \<Rightarrow> document \<Rightarrow> bool" where
  "doc_ext ocg lo hi d d' \<longleftrightarrow>
     length (pages d') = length (pages d) \<and> ocgs d' = ocgs d \<and> is_closed d' = is_closed d \<and>
     (\<forall>p<length (pages d).
        content (pages d' ! p) = content (pages d ! p) \<and>
        (\<exists>its. overlay (pages d' ! p) = overlay (pages d ! p) @ its \<and>
               (\<forall>i\<in>set its. item_oc i = ocg) \<and>
               (int p < lo \<or> hi < int p \<longrightarrow> its = [])))"

definition run_ext :: "int \<Rightarrow> int \<Rightarrow> int \<Rightarrow> state \<Rightarrow> state \<Rightarrow> bool" where
  "run_ext ocg lo hi st st' \<longleftrightarrow>
     doc_ext ocg lo hi (doc st) (doc st') \<and>
     (\<exists>new. trace st' = trace st @ new \<and>
            (\<forall>ev\<in>set new. is_translate (fst ev) \<or> loop_call ocg lo hi (fst ev)))"

text \<open>No provider call follows a provider call with the same arguments that returned.\<close>

fun once_returned :: "event list \<Rightarrow> bool" where
  "once_returned [] = True"
| "once_returned (ev # evs) =
     ((is_translate (fst ev) \<and> snd ev \<longrightarrow> (\<forall>ev'\<in>set evs. fst ev' \<noteq> fst ev)) \<and> once_returned evs)"

text \<open>
  The state of the memoization in a run with the settings \<open>cfg\<close>: every provider call
  of the trace was made with the run's languages, and every one that returned has its
  arguments in the cache.
\<close>

definition memo_inv :: "settings \<Rightarrow> state \<Rightarrow> bool" where
  "memo_inv cfg st \<longleftrightarrow>
     once_returned (trace st) \<and>
     (\<forall>ev\<in>set (trace st). is_translate (fst ev) \<longrightarrow>
        (\<exists>x. fst ev = Translate (translate_source (source_lang cfg)) (target_lang cfg) x \<and>
             (snd ev \<longrightarrow> map_of (cache st) (x, source_lang cfg, target_lang cfg) \<noteq> None)))"

text \<open>A cache whose entries are answers of the deterministic provider \<open>f\<close>.\<close>

definition cache_from :: "(string \<Rightarrow> string \<Rightarrow> string \<Rightarrow> exn + pyval)
    \<Rightarrow> ((string \<times> string \<times> string) \<times> pyval) list \<Rightarrow> bool" where
  "cache_from f c \<longleftrightarrow>
     (\<forall>x s t v. map_of c (x, s, t) = Some v \<longrightarrow> f (translate_source s) t x = Inr v)"


section \<open>A sample run\<close>

text \<open>
  A three-page document with one or two blocks on each page, the settings of the
  scenario "page 2 to page 2, target es", and an environment in which the calls chosen
  by \<open>bad\<close> raise and the provider is down when \<open>down\<close> holds.
\<close>

definition ex_box :: bbox where
  "ex_box = [PNum 10, PNum 20, PNum 110, PNum 40]"

definition ex_blk :: "string \<Rightarrow> block" where
  "ex_blk s = ex_box @ [PStr s, PNum 0, PNum 0]"

definition ex_doc :: document where
  "ex_doc = \<lparr>pages = [\<lparr>content = [ex_blk ''one''], overlay = []\<rparr>,
                      \<lparr>content = [ex_blk ''two'', ex_blk ''  '', ex_blk ''two''], overlay = []\<rparr>,
                      \<lparr>content = [ex_blk ''three''], overlay = []\<rparr>],
             ocgs = [], is_closed = False\<rparr>"

definition ex_state :: state where
  "ex_state = \<lparr>doc = ex_doc, cache = [], trace = [(FitzOpen, True)]\<rparr>"

definition ex_cfg :: "bool \<Rightarrow> int \<Rightarrow> int \<Rightarrow> settings" where
  "ex_cfg tb from_page to_page =
     \<lparr>target_lang = ''es'', source_lang = ''auto'', min_font_size = 19 / 2,
      line_height = 5 / 4, use_textbox = tb, start_page = from_page, end_page = to_page\<rparr>"

definition ex_env :: "(call \<Rightarrow> bool) \<Rightarrow> bool \<Rightarrow> env" where
  "ex_env bad down =
     \<lparr>fitz_open = (\<lambda>data. Inr ex_doc),
      add_ocg = (\<lambda>tr name. Inr 7),
      provider = (\<lambda>tr s t x. if down then Inl (Exn ''provider'') else Inr (PStr (''es:'' @ x))),
      fails = (\<lambda>tr c. if bad c then Some (Exn ''library'') else None)\<rparr>"

text \<open>The two calls that place text.\<close>

fun placement :: "call \<Rightarrow> bool" where
  "placement (InsertTextbox p b t fs oc) = True"
| "placement (InsertHtmlbox p b h fs lh oc) = True"
| "placement c = False"

lemmas run_defs =
  pipeline_def finish_def process_page_def process_block_def place_text_def translate_def
  translate_fn_def translate_source_def attempt_def emit_def add_item_def block_text_def
  block_bbox_def first_index_def last_index_def layer_name_def strip_def isspace_def

lemmas ex_defs = ex_box_def ex_blk_def ex_doc_def ex_state_def ex_cfg_def ex_env_def


section \<open>Basic facts\<close>

lemma strip_empty_iff: "strip s = [] \<longleftrightarrow> (\<forall>c\<in>set s. isspace c)"
proof
  assume "strip s = []"
  then have "\<forall>c\<in>set (dropWhile isspace s). isspace c"
    by (simp add: strip_def dropWhile_eq_Nil_conv)
  then have "dropWhile isspace s = []"
    by (metis hd_dropWhile hd_in_set)
  then show "\<forall>c\<in>set s. isspace c"
    by (simp add: dropWhile_eq_Nil_conv)
next
  assume "\<forall>c\<in>set s. isspace c"
  then show "strip s = []"
    by (auto simp: strip_def dest: set_dropWhileD)
qed

lemma emit_simps:
  "trace (emit c ok st) = trace st @ [(c, ok)]"
  "doc (emit c ok st) = doc st"
  "cache (emit c ok st) = cache st"
  by (simp_all add: emit_def)

lemma attempt_simps:
  "trace (snd (attempt env c st)) = trace st @ [(c, fails env (trace st) c = None)]"
  "cache (snd (attempt env c st)) = cache st"
  "doc (snd (attempt env c st)) = (if fails env (trace st) c = None then effect c (doc st) else doc st)"
  "fst (attempt env c st) = fails env (trace st) c"
  by (simp_all add: attempt_def emit_def split: option.splits)

lemma length_add_item: "length (pages (add_item pno it d)) = length (pages d)"
  by (simp add: add_item_def)

lemma add_item_other: "ocgs (add_item pno it d) = ocgs d" "is_closed (add_item pno it d) = is_closed d"
  by (simp_all add: add_item_def)

lemma nth_add_item:
  "p < length (pages d) \<Longrightarrow>
   pages (add_item pno it d) ! p =
     (if int p = pno then (pages d ! p)\<lparr>overlay := overlay (pages d ! p) @ [it]\<rparr> else pages d ! p)"
  by (auto simp: add_item_def nth_list_update)

lemma doc_ext_refl: "doc_ext ocg lo hi d d"
  by (simp add: doc_ext_def)

lemma doc_ext_trans:
  assumes "doc_ext ocg lo hi d1 d2" and "doc_ext ocg lo hi d2 d3"
  shows "doc_ext ocg lo hi d1 d3"
  unfolding doc_ext_def
proof (intro conjI allI impI)
  fix p assume p: "p < length (pages d1)"
  from assms p obtain a where a: "content (pages d2 ! p) = content (pages d1 ! p)"
     "overlay (pages d2 ! p) = overlay (pages d1 ! p) @ a" "\<forall>i\<in>set a. item_oc i = ocg"
     "int p < lo \<or> hi < int p \<longrightarrow> a = []"
    unfolding doc_ext_def by blast
  from assms p obtain b where b: "content (pages d3 ! p) = content (pages d2 ! p)"
     "overlay (pages d3 ! p) = overlay (pages d2 ! p) @ b" "\<forall>i\<in>set b. item_oc i = ocg"
     "int p < lo \<or> hi < int p \<longrightarrow> b = []"
    unfolding doc_ext_def by (metis (no_types, lifting))
  show "content (pages d3 ! p) = content (pages d1 ! p)" using a b by simp
  show "\<exists>its. overlay (pages d3 ! p) = overlay (pages d1 ! p) @ its \<and>
            (\<forall>i\<in>set its. item_oc i = ocg) \<and> (int p < lo \<or> hi < int p \<longrightarrow> its = [])"
    using a b by (intro exI[of _ "a @ b"]) auto
qed (use assms in \<open>simp_all add: doc_ext_def\<close>)

lemma doc_ext_add_item:
  assumes "lo \<le> pno" and "pno \<le> hi" and "item_oc it = ocg"
  shows "doc_ext ocg lo hi d (add_item pno it d)"
  unfolding doc_ext_def using assms
  by (auto simp: length_add_item add_item_other nth_add_item)

lemma doc_ext_effect: "loop_call ocg lo hi c \<Longrightarrow> doc_ext ocg lo hi d (effect c d)"
  by (cases c) (simp_all add: doc_ext_add_item doc_ext_refl)

lemma run_ext_refl: "run_ext ocg lo hi st st"
  by (simp add: run_ext_def doc_ext_refl)

lemma run_ext_trans:
  assumes "run_ext ocg lo hi s1 s2" and "run_ext ocg lo hi s2 s3"
  shows "run_ext ocg lo hi s1 s3"
proof -
  from assms obtain a b where a: "trace s2 = trace s1 @ a" "\<forall>ev\<in>set a. is_translate (fst ev) \<or> loop_call ocg lo hi (fst ev)"
    and b: "trace s3 = trace s2 @ b" "\<forall>ev\<in>set b. is_translate (fst ev) \<or> loop_call ocg lo hi (fst ev)"
    unfolding run_ext_def by blast
  have "trace s3 = trace s1 @ (a @ b)" using a b by simp
  moreover have "\<forall>ev\<in>set (a @ b). is_translate (fst ev) \<or> loop_call ocg lo hi (fst ev)"
    using a b by auto
  moreover have "doc_ext ocg lo hi (doc s1) (doc s3)"
    using assms doc_ext_trans unfolding run_ext_def by blast
  ultimately show ?thesis unfolding run_ext_def by blast
qed

lemma translate_simps:
  "doc (snd (translate env x s t st)) = doc st"
  by (simp add: translate_def emit_def split: option.splits sum.splits)

lemma translate_trace:
  "\<exists>new. trace (snd (translate env x s t st)) = trace st @ new \<and> (\<forall>ev\<in>set new. is_translate (fst ev))"
  by (simp add: translate_def emit_def split: option.splits sum.splits)

lemma steps_run_ext: "steps env cfg ocg lo hi st st' \<Longrightarrow> run_ext ocg lo hi st st'"
proof (induction rule: steps.induct)
  case (steps_refl st)
  show ?case by (rule run_ext_refl)
next
  case (steps_emit st st1 c ok)
  have "run_ext ocg lo hi st1 (emit c ok st1)"
    using steps_emit.hyps(2) by (simp add: run_ext_def emit_simps doc_ext_refl)
  with steps_emit.IH show ?case by (rule run_ext_trans)
next
  case (steps_attempt st st1 c)
  have "run_ext ocg lo hi st1 (snd (attempt env c st1))"
    using steps_attempt.hyps(2) by (simp add: run_ext_def attempt_simps doc_ext_refl doc_ext_effect)
  with steps_attempt.IH show ?case by (rule run_ext_trans)
next
  case (steps_translate st st1 x)
  have "run_ext ocg lo hi st1 (snd (translate env x (source_lang cfg) (target_lang cfg) st1))"
    using translate_trace[of env x "source_lang cfg" "target_lang cfg" st1]
    by (auto simp: run_ext_def translate_simps doc_ext_refl)
  with steps_translate.IH show ?case by (rule run_ext_trans)
qed

lemma steps_trans:
  assumes "steps env cfg ocg lo hi s2 s3" and "steps env cfg ocg lo hi s1 s2"
  shows "steps env cfg ocg lo hi s1 s3"
  using assms by (induction rule: steps.induct) (auto intro: steps.intros)


lemma steps_place_text:
  assumes "lo \<le> pno" and "pno \<le> hi"
  shows "steps env cfg ocg lo hi st (place_text env cfg ocg pno b t st)"
proof -
  let ?tb = "InsertTextbox pno b t (min_font_size cfg) ocg"
  let ?pr = "if use_textbox cfg then ?tb
             else InsertHtmlbox pno b (text_to_html t) (min_font_size cfg) (line_height cfg) ocg"
  have pr: "loop_call ocg lo hi ?pr" and tb: "loop_call ocg lo hi ?tb"
    using assms by simp_all
  have s1: "steps env cfg ocg lo hi st (snd (attempt env ?pr st))"
    using steps_refl pr by (rule steps_attempt)
  have s2: "steps env cfg ocg lo hi st (snd (attempt env ?tb (snd (attempt env ?pr st))))"
    using s1 tb by (rule steps_attempt)
  show ?thesis
  proof (cases "attempt env ?pr st")
    case (Pair r st1)
    then show ?thesis using s1 s2
      by (cases r) (simp_all add: place_text_def)
  qed
qed

lemma steps_process_block:
  assumes "lo \<le> pno" and "pno \<le> hi"
  shows "steps env cfg ocg lo hi st (process_block env cfg ocg pno blk st)"
proof (cases "\<exists>s. block_text blk = PStr s \<and> strip s \<noteq> []")
  case False
  then have "process_block env cfg ocg pno blk st = st"
    by (auto simp: process_block_def split: pyval.splits)
  then show ?thesis by (simp add: steps_refl)
next
  case True
  then obtain s where s: "block_text blk = PStr s" "strip s \<noteq> []" by blast
  obtain r st1 where tr: "translate env s (source_lang cfg) (target_lang cfg) st = (r, st1)"
    by (cases "translate env s (source_lang cfg) (target_lang cfg) st")
  have "steps env cfg ocg lo hi st (snd (translate env s (source_lang cfg) (target_lang cfg) st))"
    by (rule steps_translate) (rule steps_refl)
  then have t1: "steps env cfg ocg lo hi st st1"
    using tr by simp
  let ?dr = "DrawRect pno (block_bbox blk) ocg"
  have dr: "loop_call ocg lo hi ?dr" using assms by simp
  obtain r2 st2 where at: "attempt env ?dr st1 = (r2, st2)"
    by (cases "attempt env ?dr st1")
  have "steps env cfg ocg lo hi st (snd (attempt env ?dr st1))"
    using t1 dr by (rule steps_attempt)
  then have t2: "steps env cfg ocg lo hi st st2"
    using at by simp
  have t3: "steps env cfg ocg lo hi st (place_text env cfg ocg pno (block_bbox blk) t st2)" for t
    using steps_place_text[OF assms] t2 by (rule steps_trans)
  show ?thesis
    using s tr at t1 t2 t3
    by (auto simp: process_block_def split: pyval.splits sum.splits option.splits)
qed

lemma steps_fold_blocks:
  assumes "lo \<le> pno" and "pno \<le> hi"
  shows "steps env cfg ocg lo hi st (fold (process_block env cfg ocg pno) blks st)"
proof (induction blks arbitrary: st)
  case Nil
  show ?case by (simp add: steps_refl)
next
  case (Cons blk blks)
  have "steps env cfg ocg lo hi st (process_block env cfg ocg pno blk st)"
    using assms by (rule steps_process_block)
  with Cons.IH[of "process_block env cfg ocg pno blk st"] show ?case
    by (simp add: steps_trans)
qed

lemma steps_process_page:
  assumes "lo \<le> pno" and "pno \<le> hi"
  shows "steps env cfg ocg lo hi st (snd (process_page env cfg ocg first_idx last_idx pno st))"
proof (cases "pno < 0 \<or> int (length (pages (doc st))) \<le> pno")
  case True
  have "loop_call ocg lo hi (LoadPage pno)" using assms by simp
  with steps_refl have "steps env cfg ocg lo hi st (emit (LoadPage pno) False st)"
    by (rule steps_emit)
  with True show ?thesis
    by (simp add: process_page_def)
next
  case False
  have lp: "loop_call ocg lo hi (LoadPage pno)" and gt: "loop_call ocg lo hi (GetText pno)"
    using assms by simp_all
  let ?st1 = "snd (attempt env (LoadPage pno) st)"
  have a1: "steps env cfg ocg lo hi st ?st1"
    using steps_refl lp by (rule steps_attempt)
  let ?st1' = "emit (StStatus (pno + 1) (last_idx + 1)) True ?st1"
  have a2: "steps env cfg ocg lo hi st ?st1'"
    using a1 by (rule steps_emit) simp
  let ?st2 = "snd (attempt env (GetText pno) ?st1')"
  have a3: "steps env cfg ocg lo hi st ?st2"
    using a2 gt by (rule steps_attempt)
  have a4: "steps env cfg ocg lo hi st (fold (process_block env cfg ocg pno) blks ?st2)" for blks
    using steps_fold_blocks[OF assms] a3 by (rule steps_trans)
  have a5: "steps env cfg ocg lo hi st
     (emit (StProgress (pno - first_idx + 1) (last_idx - first_idx + 1)) True
        (fold (process_block env cfg ocg pno) blks ?st2))" for blks
    using a4 by (rule steps_emit) simp
  show ?thesis
  proof (cases "attempt env (LoadPage pno) st")
    case (Pair r st1)
    show ?thesis
    proof (cases r)
      case (Some e)
      with Pair a1 False show ?thesis by (simp add: process_page_def)
    next
      case None
      with Pair a5 False show ?thesis
        by (simp add: process_page_def case_prod_beta)
    qed
  qed
qed

lemma steps_process_pages:
  assumes "\<forall>p\<in>set ps. lo \<le> p \<and> p \<le> hi"
  shows "steps env cfg ocg lo hi st (snd (process_pages env cfg ocg first_idx last_idx ps st))"
  using assms
proof (induction ps arbitrary: st)
  case Nil
  show ?case by (simp add: steps_refl)
next
  case (Cons p ps)
  obtain r st1 where pp: "process_page env cfg ocg first_idx last_idx p st = (r, st1)"
    by (cases "process_page env cfg ocg first_idx last_idx p st")
  have s1: "steps env cfg ocg lo hi st st1"
    using steps_process_page[of lo p hi env cfg ocg st first_idx last_idx] Cons.prems pp by simp
  show ?case
  proof (cases r)
    case (Some e)
    with pp s1 show ?thesis by simp
  next
    case None
    have "steps env cfg ocg lo hi st1 (snd (process_pages env cfg ocg first_idx last_idx ps st1))"
      using Cons.IH Cons.prems by simp
    then have "steps env cfg ocg lo hi st (snd (process_pages env cfg ocg first_idx last_idx ps st1))"
      using s1 by (rule steps_trans)
    with pp None show ?thesis by simp
  qed
qed


lemma strip_Nil: "strip [] = []"
  by (simp add: strip_def)

lemma translate_Inl:
  assumes "translate env x s t st = (Inl e, st1)"
  shows "doc st1 = doc st" and "cache st1 = cache st"
    and "trace st1 = trace st @ [(Translate (translate_source s) t x, False)]"
  using assms by (auto simp: translate_def emit_def split: option.splits sum.splits)

lemma overlay_add_item:
  "p < length (pages d) \<Longrightarrow>
   overlay (pages (add_item pno it d) ! p) = overlay (pages d ! p) @ (if int p = pno then [it] else [])"
  by (simp add: nth_add_item)

lemma place_text_result:
  "place_text env cfg ocg pno b t st =
     (if fails env (trace st)
           (if use_textbox cfg then InsertTextbox pno b t (min_font_size cfg) ocg
            else InsertHtmlbox pno b (text_to_html t) (min_font_size cfg) (line_height cfg) ocg) = None
      then st\<lparr>trace := trace st @
                 [(if use_textbox cfg then InsertTextbox pno b t (min_font_size cfg) ocg
                   else InsertHtmlbox pno b (text_to_html t) (min_font_size cfg) (line_height cfg) ocg, True)],
              doc := add_item pno
                 (if use_textbox cfg then Textbox b t (min_font_size cfg) ocg
                  else Htmlbox b (text_to_html t) (min_font_size cfg) (line_height cfg) ocg) (doc st)\<rparr>
      else if fails env
                (trace st @
                   [(if use_textbox cfg then InsertTextbox pno b t (min_font_size cfg) ocg
                     else InsertHtmlbox pno b (text_to_html t) (min_font_size cfg) (line_height cfg) ocg, False)])
                (InsertTextbox pno b t (min_font_size cfg) ocg) = None
      then st\<lparr>trace := trace st @
                 [(if use_textbox cfg then InsertTextbox pno b t (min_font_size cfg) ocg
                   else InsertHtmlbox pno b (text_to_html t) (min_font_size cfg) (line_height cfg) ocg, False),
                  (InsertTextbox pno b t (min_font_size cfg) ocg, True)],
              doc := add_item pno (Textbox b t (min_font_size cfg) ocg) (doc st)\<rparr>
      else st\<lparr>trace := trace st @
                 [(if use_textbox cfg then InsertTextbox pno b t (min_font_size cfg) ocg
                   else InsertHtmlbox pno b (text_to_html t) (min_font_size cfg) (line_height cfg) ocg, False),
                  (InsertTextbox pno b t (min_font_size cfg) ocg, False)]\<rparr>)"
  by (cases "use_textbox cfg") (auto simp: place_text_def attempt_def emit_def split: option.splits)

lemma process_block_result:
  assumes "block_text blk = PStr s" and "strip s \<noteq> []"
      and "translate env s (source_lang cfg) (target_lang cfg) st = (r, st1)"
      and "(case r of Inl e \<Rightarrow> PStr s | Inr v \<Rightarrow> v) = PStr t"
  shows "process_block env cfg ocg pno blk st =
           (if fails env (trace st1) (DrawRect pno (block_bbox blk) ocg) = None
            then place_text env cfg ocg pno (block_bbox blk) t
                   (st1\<lparr>trace := trace st1 @ [(DrawRect pno (block_bbox blk) ocg, True)],
                        doc := add_item pno (Rect (block_bbox blk) ocg) (doc st1)\<rparr>)
            else st1\<lparr>trace := trace st1 @ [(DrawRect pno (block_bbox blk) ocg, False)]\<rparr>)"
  using assms by (auto simp: process_block_def attempt_def emit_def split: option.splits)


lemma ex_two: "block_text (ex_blk ''two'') = PStr ''two''" "block_bbox (ex_blk ''two'') = ex_box"
  by (simp_all add: block_text_def block_bbox_def ex_blk_def ex_box_def)

lemma strip_two: "strip ''two'' = ''two''"
  by (simp add: strip_def isspace_def)


lemma ex_translate_ok:
  "translate (ex_env bad False) ''two'' (source_lang (ex_cfg tb a b)) (target_lang (ex_cfg tb a b)) ex_state
     = (Inr (PStr ''es:two''),
        ex_state\<lparr>trace := trace ex_state @ [(Translate ''auto'' ''es'' ''two'', True)],
                  cache := [((''two'', ''auto'', ''es''), PStr ''es:two'')]\<rparr>)"
  by (simp add: translate_def translate_fn_def translate_source_def strip_def isspace_def emit_def
        ex_state_def ex_cfg_def ex_env_def)

lemma translate_events:
  "\<exists>tn. trace (snd (translate env x s t st)) = trace st @ tn \<and>
        (tn = [] \<or> (\<exists>ok. tn = [(Translate (translate_source s) t x, ok)]))"
  by (auto simp: translate_def emit_def split: option.splits sum.splits)

lemma process_block_events:
  "\<exists>tn new.
     trace (process_block env cfg ocg pno blk st) = trace st @ tn @ new \<and>
     (tn = [] \<or> (\<exists>c ok. is_translate c \<and> tn = [(c, ok)])) \<and>
     (new = [] \<or>
      (\<exists>a. new = [(DrawRect pno (block_bbox blk) ocg, a)]) \<or>
      (\<exists>t a. new = [(DrawRect pno (block_bbox blk) ocg, True),
                    (if use_textbox cfg
                     then InsertTextbox pno (block_bbox blk) t (min_font_size cfg) ocg
                     else InsertHtmlbox pno (block_bbox blk) (text_to_html t)
                            (min_font_size cfg) (line_height cfg) ocg, a)]) \<or>
      (\<exists>t a. new = [(DrawRect pno (block_bbox blk) ocg, True),
                    (if use_textbox cfg
                     then InsertTextbox pno (block_bbox blk) t (min_font_size cfg) ocg
                     else InsertHtmlbox pno (block_bbox blk) (text_to_html t)
                            (min_font_size cfg) (line_height cfg) ocg, False),
                    (InsertTextbox pno (block_bbox blk) t (min_font_size cfg) ocg, a)]))"
proof (cases "\<exists>s. block_text blk = PStr s \<and> strip s \<noteq> []")
  case False
  then have "process_block env cfg ocg pno blk st = st"
    by (auto simp: process_block_def split: pyval.splits)
  then show ?thesis by simp
next
  case True
  then obtain s where s: "block_text blk = PStr s" "strip s \<noteq> []" by blast
  obtain r st1 where tr: "translate env s (source_lang cfg) (target_lang cfg) st = (r, st1)"
    by (cases "translate env s (source_lang cfg) (target_lang cfg) st")
  obtain tn where tn: "trace st1 = trace st @ tn"
      "tn = [] \<or> (\<exists>c ok. is_translate c \<and> tn = [(c, ok)])"
    using translate_events[of env s "source_lang cfg" "target_lang cfg" st] tr by auto
  show ?thesis
  proof (cases "\<exists>t. (case r of Inl e \<Rightarrow> PStr s | Inr v \<Rightarrow> v) = PStr t")
    case False
    then have "process_block env cfg ocg pno blk st = st1"
      using s tr by (auto simp: process_block_def split: pyval.splits)
    with tn(1) have "trace (process_block env cfg ocg pno blk st) = trace st @ tn @ []"
      by simp
    with tn(2) show ?thesis by blast
  next
    case True
    then obtain t where t: "(case r of Inl e \<Rightarrow> PStr s | Inr v \<Rightarrow> v) = PStr t" by blast
    let ?dr = "DrawRect pno (block_bbox blk) ocg"
    let ?pr = "if use_textbox cfg
                     then InsertTextbox pno (block_bbox blk) t (min_font_size cfg) ocg
                     else InsertHtmlbox pno (block_bbox blk) (text_to_html t)
                            (min_font_size cfg) (line_height cfg) ocg"
    let ?tb = "InsertTextbox pno (block_bbox blk) t (min_font_size cfg) ocg"
    have "trace (process_block env cfg ocg pno blk st) = trace st1 @ [(?dr, False)]
        \<or> trace (process_block env cfg ocg pno blk st) = trace st1 @ [(?dr, True), (?pr, True)]
        \<or> (\<exists>a. trace (process_block env cfg ocg pno blk st)
                 = trace st1 @ [(?dr, True), (?pr, False), (?tb, a)])"
      unfolding process_block_result[OF s tr t] place_text_result by auto
    then consider
        (a) "trace (process_block env cfg ocg pno blk st) = trace st @ tn @ [(?dr, False)]"
      | (b) "trace (process_block env cfg ocg pno blk st) = trace st @ tn @ [(?dr, True), (?pr, True)]"
      | (c) a where "trace (process_block env cfg ocg pno blk st)
                 = trace st @ tn @ [(?dr, True), (?pr, False), (?tb, a)]"
      using tn(1) by auto
    then show ?thesis
    proof cases
      case a
      with tn(2) show ?thesis by blast
    next
      case b
      with tn(2) show ?thesis by blast
    next
      case c
      with tn(2) show ?thesis by blast
    qed
  qed
qed


lemma finish_doc:
  "pages (doc (snd (finish env st))) = pages (doc st)"
  "ocgs (doc (snd (finish env st))) = ocgs (doc st)"
  "is_closed (doc (snd (finish env st))) = (is_closed (doc st) \<or> fst (finish env st) = Completed)"
  by (simp_all add: finish_def attempt_def emit_def split: option.splits)

lemma finish_trace:
  "\<exists>new. trace (snd (finish env st)) = trace st @ new \<and>
         (\<forall>ev\<in>set new. fst ev \<in> {SubsetFonts, EzSave, Close, StSuccess, StDownload})"
  by (simp add: finish_def attempt_def emit_def split: option.splits)

lemma pipeline_cases:
  obtains
    (stopped) "last_index cfg (int (length (pages (doc st)))) < first_index cfg"
      and "pipeline env cfg st =
             (Stopped, st\<lparr>trace := trace st @ [(StError ''Invalid page range.'', True), (StStop, True)]\<rparr>)"
  | (no_layer) e where "first_index cfg \<le> last_index cfg (int (length (pages (doc st))))"
      and "pipeline env cfg st =
             (Crashed e, st\<lparr>trace := trace st @ [(AddOcg (layer_name cfg), False)]\<rparr>)"
  | (crashed) ocg e st2 where "first_index cfg \<le> last_index cfg (int (length (pages (doc st))))"
      and "steps env cfg ocg (first_index cfg) (last_index cfg (int (length (pages (doc st)))))
             (st\<lparr>trace := trace st @ [(AddOcg (layer_name cfg), True)],
                 doc := (doc st)\<lparr>ocgs := ocgs (doc st) @ [(ocg, layer_name cfg)]\<rparr>\<rparr>) st2"
      and "pipeline env cfg st = (Crashed e, st2)"
  | (finished) ocg st2 where "first_index cfg \<le> last_index cfg (int (length (pages (doc st))))"
      and "steps env cfg ocg (first_index cfg) (last_index cfg (int (length (pages (doc st)))))
             (st\<lparr>trace := trace st @ [(AddOcg (layer_name cfg), True)],
                 doc := (doc st)\<lparr>ocgs := ocgs (doc st) @ [(ocg, layer_name cfg)]\<rparr>\<rparr>) st2"
      and "pipeline env cfg st = finish env st2"
proof (cases "last_index cfg (int (length (pages (doc st)))) < first_index cfg")
  case True
  then show ?thesis
    using stopped by (simp add: pipeline_def emit_def)
next
  case False
  let ?lo = "first_index cfg" and ?hi = "last_index cfg (int (length (pages (doc st))))"
  show ?thesis
  proof (cases "add_ocg env (trace st) (layer_name cfg)")
    case (Inl e)
    with False show ?thesis
      using no_layer[of e] by (simp add: pipeline_def emit_def)
  next
    case (Inr ocg)
    let ?st1 = "st\<lparr>trace := trace st @ [(AddOcg (layer_name cfg), True)],
                 doc := (doc st)\<lparr>ocgs := ocgs (doc st) @ [(ocg, layer_name cfg)]\<rparr>\<rparr>"
    obtain r st2 where pp: "process_pages env cfg ocg ?lo ?hi [?lo..?hi] ?st1 = (r, st2)"
      by (cases "process_pages env cfg ocg ?lo ?hi [?lo..?hi] ?st1")
    have "steps env cfg ocg ?lo ?hi ?st1 (snd (process_pages env cfg ocg ?lo ?hi [?lo..?hi] ?st1))"
      by (rule steps_process_pages) simp
    then have s: "steps env cfg ocg ?lo ?hi ?st1 st2"
      using pp by simp
    show ?thesis
    proof (cases r)
      case None
      with False Inr pp have "pipeline env cfg st = finish env st2"
        by (simp add: pipeline_def emit_def)
      with False s show ?thesis using finished[of ocg st2] by simp
    next
      case (Some e)
      with False Inr pp have "pipeline env cfg st = (Crashed e, st2)"
        by (simp add: pipeline_def emit_def)
      with False s show ?thesis using crashed[of ocg st2 e] by simp
    qed
  qed
qed

lemma doc_ext_outside:
  assumes "doc_ext ocg lo hi d d'" and "p < length (pages d)" and "int p < lo \<or> hi < int p"
  shows "pages d' ! p = pages d ! p"
proof -
  from assms have "content (pages d' ! p) = content (pages d ! p)"
    and "overlay (pages d' ! p) = overlay (pages d ! p)"
    unfolding doc_ext_def by auto
  then show ?thesis by simp
qed

lemma loop_call_page:
  "is_translate c \<or> loop_call ocg lo hi c \<Longrightarrow> call_page c = Some p \<Longrightarrow> lo \<le> p \<and> p \<le> hi"
  by (cases c) auto

lemma loop_call_no_layer:
  "is_translate c \<or> loop_call ocg lo hi c \<Longrightarrow> \<not> is_add_ocg c"
  by (cases c) auto


lemma ex_run_completed:
  "fst (pipeline (ex_env (\<lambda>c. False) False) (ex_cfg False 2 2) ex_state) = Completed"
  by (simp add: run_defs ex_defs)


lemma closed_iff_completed:
  "is_closed (doc (snd (pipeline env cfg st)))
     = (is_closed (doc st) \<or> fst (pipeline env cfg st) = Completed)"
proof (cases env cfg st rule: pipeline_cases)
  case stopped
  then show ?thesis by simp
next
  case (no_layer e)
  then show ?thesis by simp
next
  case (crashed ocg e st2)
  from steps_run_ext[OF crashed(2)] have "is_closed (doc st2) = is_closed (doc st)"
    by (simp add: run_ext_def doc_ext_def)
  with crashed(3) show ?thesis by simp
next
  case (finished ocg st2)
  from steps_run_ext[OF finished(2)] have "is_closed (doc st2) = is_closed (doc st)"
    by (simp add: run_ext_def doc_ext_def)
  with finished(3) show ?thesis by (simp add: finish_doc)
qed

lemma once_returned_other: "\<forall>ev\<in>set b. \<not> is_translate (fst ev) \<Longrightarrow> once_returned b"
  by (induction b) auto

lemma once_returned_append_other:
  assumes "\<forall>ev\<in>set b. \<not> is_translate (fst ev)"
  shows "once_returned (a @ b) = once_returned a"
  using assms by (induction a) (auto simp: once_returned_other)

lemma once_returned_snoc:
  "once_returned (evs @ [ev]) =
     (once_returned evs \<and> (\<forall>ev'\<in>set evs. is_translate (fst ev') \<and> snd ev' \<longrightarrow> fst ev \<noteq> fst ev'))"
  by (induction evs) auto

lemma memo_inv_other:
  assumes "memo_inv cfg st" and "cache st' = cache st" and "trace st' = trace st @ new"
      and "\<forall>ev\<in>set new. \<not> is_translate (fst ev)"
  shows "memo_inv cfg st'"
  using assms by (auto simp: memo_inv_def once_returned_append_other)

lemma memo_inv_fresh: "\<forall>ev\<in>set (trace st). \<not> is_translate (fst ev) \<Longrightarrow> memo_inv cfg st"
  by (simp add: memo_inv_def once_returned_other)

lemma memo_inv_translate:
  assumes "memo_inv cfg st"
  shows "memo_inv cfg (snd (translate env x (source_lang cfg) (target_lang cfg) st))"
proof (cases "map_of (cache st) (x, source_lang cfg, target_lang cfg)")
  case (Some v)
  with assms show ?thesis by (simp add: translate_def)
next
  case None
  let ?c = "Translate (translate_source (source_lang cfg)) (target_lang cfg) x"
  have nope: "fst ev' \<noteq> ?c" if "ev' \<in> set (trace st)" "is_translate (fst ev')" "snd ev'" for ev'
  proof
    assume "fst ev' = ?c"
    moreover from assms that obtain x' where
       "fst ev' = Translate (translate_source (source_lang cfg)) (target_lang cfg) x'"
       "map_of (cache st) (x', source_lang cfg, target_lang cfg) \<noteq> None"
      unfolding memo_inv_def by blast
    ultimately show False using None by simp
  qed
  have o: "once_returned (trace st @ [(?c, ok)])" for ok
  proof -
    have "once_returned (trace st)"
      using assms by (simp add: memo_inv_def)
    moreover have "\<forall>ev'\<in>set (trace st). is_translate (fst ev') \<and> snd ev' \<longrightarrow> fst (?c, ok) \<noteq> fst ev'"
      using nope by fastforce
    ultimately show ?thesis
      unfolding once_returned_snoc by blast
  qed
  have second: "\<forall>ev\<in>set (trace st @ [(?c, ok)]). is_translate (fst ev) \<longrightarrow>
        (\<exists>x'. fst ev = Translate (translate_source (source_lang cfg)) (target_lang cfg) x' \<and>
              (snd ev \<longrightarrow> map_of C (x', source_lang cfg, target_lang cfg) \<noteq> None))"
    if mono: "\<And>k. map_of (cache st) k \<noteq> None \<Longrightarrow> map_of C k \<noteq> None"
      and new: "ok \<Longrightarrow> map_of C (x, source_lang cfg, target_lang cfg) \<noteq> None"
    for ok C
  proof (intro ballI impI)
    fix ev
    assume ev: "ev \<in> set (trace st @ [(?c, ok)])" "is_translate (fst ev)"
    show "\<exists>x'. fst ev = Translate (translate_source (source_lang cfg)) (target_lang cfg) x' \<and>
              (snd ev \<longrightarrow> map_of C (x', source_lang cfg, target_lang cfg) \<noteq> None)"
    proof (cases "ev = (?c, ok)")
      case True
      then show ?thesis using new by (intro exI[of _ x]) auto
    next
      case False
      with ev(1) have "ev \<in> set (trace st)" by auto
      with assms ev(2) obtain x' where
          "fst ev = Translate (translate_source (source_lang cfg)) (target_lang cfg) x'"
          "snd ev \<longrightarrow> map_of (cache st) (x', source_lang cfg, target_lang cfg) \<noteq> None"
        unfolding memo_inv_def by blast
      then show ?thesis using mono by blast
    qed
  qed
  show ?thesis
  proof (cases "translate_fn env (trace st) x (source_lang cfg) (target_lang cfg)")
    case (Inl e)
    with None have "snd (translate env x (source_lang cfg) (target_lang cfg) st)
        = st\<lparr>trace := trace st @ [(?c, False)]\<rparr>"
      by (simp add: translate_def emit_def)
    then show ?thesis using o[of False] second[of "cache st" False]
      by (simp add: memo_inv_def)
  next
    case (Inr v)
    with None have "snd (translate env x (source_lang cfg) (target_lang cfg) st)
        = st\<lparr>trace := trace st @ [(?c, True)],
              cache := ((x, source_lang cfg, target_lang cfg), v) # cache st\<rparr>"
      by (simp add: translate_def emit_def)
    moreover have "\<forall>ev\<in>set (trace st @ [(?c, True)]). is_translate (fst ev) \<longrightarrow>
        (\<exists>x'. fst ev = Translate (translate_source (source_lang cfg)) (target_lang cfg) x' \<and>
              (snd ev \<longrightarrow> map_of (((x, source_lang cfg, target_lang cfg), v) # cache st)
                           (x', source_lang cfg, target_lang cfg) \<noteq> None))"
      by (rule second) simp_all
    ultimately show ?thesis using o[of True]
      by (simp add: memo_inv_def)
  qed
qed

lemma loop_call_not_translate: "loop_call ocg lo hi c \<Longrightarrow> \<not> is_translate c"
  by (cases c) auto

lemma steps_memo_inv:
  "steps env cfg ocg lo hi st st' \<Longrightarrow> memo_inv cfg st \<Longrightarrow> memo_inv cfg st'"
proof (induction rule: steps.induct)
  case (steps_refl st)
  then show ?case .
next
  case (steps_emit st st1 c ok)
  then have "memo_inv cfg st1" by simp
  then show ?case
    by (rule memo_inv_other[where new = "[(c, ok)]"])
       (use steps_emit.hyps(2) loop_call_not_translate in \<open>auto simp: emit_simps\<close>)
next
  case (steps_attempt st st1 c)
  then have "memo_inv cfg st1" by simp
  then show ?case
    by (rule memo_inv_other[where new = "[(c, fails env (trace st1) c = None)]"])
       (use steps_attempt.hyps(2) loop_call_not_translate in \<open>auto simp: attempt_simps\<close>)
next
  case (steps_translate st st1 x)
  then have "memo_inv cfg st1" by simp
  then show ?case by (rule memo_inv_translate)
qed

lemma finish_cache: "cache (snd (finish env st)) = cache st"
  by (simp add: finish_def attempt_def emit_def split: option.splits)

lemma pipeline_memo_inv:
  assumes "memo_inv cfg st"
  shows "memo_inv cfg (snd (pipeline env cfg st))"
proof (cases env cfg st rule: pipeline_cases)
  case stopped
  show ?thesis
    by (rule memo_inv_other[OF assms, where new = "[(StError ''Invalid page range.'', True), (StStop, True)]"])
       (simp_all add: stopped)
next
  case (no_layer e)
  show ?thesis
    by (rule memo_inv_other[OF assms, where new = "[(AddOcg (layer_name cfg), False)]"])
       (simp_all add: no_layer)
next
  case (crashed ocg e st2)
  have "memo_inv cfg (st\<lparr>trace := trace st @ [(AddOcg (layer_name cfg), True)],
                 doc := (doc st)\<lparr>ocgs := ocgs (doc st) @ [(ocg, layer_name cfg)]\<rparr>\<rparr>)"
    by (rule memo_inv_other[OF assms, where new = "[(AddOcg (layer_name cfg), True)]"]) simp_all
  with crashed(2) have "memo_inv cfg st2" by (rule steps_memo_inv)
  with crashed(3) show ?thesis by simp
next
  case (finished ocg st2)
  have "memo_inv cfg (st\<lparr>trace := trace st @ [(AddOcg (layer_name cfg), True)],
                 doc := (doc st)\<lparr>ocgs := ocgs (doc st) @ [(ocg, layer_name cfg)]\<rparr>\<rparr>)"
    by (rule memo_inv_other[OF assms, where new = "[(AddOcg (layer_name cfg), True)]"]) simp_all
  with finished(2) have m: "memo_inv cfg st2" by (rule steps_memo_inv)
  obtain fin where fin: "trace (snd (finish env st2)) = trace st2 @ fin"
      "\<forall>ev\<in>set fin. fst ev \<in> {SubsetFonts, EzSave, Close, StSuccess, StDownload}"
    using finish_trace[of env st2] by blast
  have "memo_inv cfg (snd (finish env st2))"
    using m finish_cache fin(1)
  proof (rule memo_inv_other)
    show "\<forall>ev\<in>set fin. \<not> is_translate (fst ev)"
      using fin(2) by fastforce
  qed
  with finished(3) show ?thesis by simp
qed


lemma translate_again:
  assumes "translate env x s t st = (Inr v, st1)"
  shows "translate env' x s t st1 = (Inr v, st1)"
proof (cases "map_of (cache st) (x, s, t)")
  case (Some w)
  with assms show ?thesis by (auto simp: translate_def)
next
  case None
  with assms have "map_of (cache st1) (x, s, t) = Some v"
    by (auto simp: translate_def emit_def split: sum.splits)
  then show ?thesis by (simp add: translate_def)
qed

lemma translate_deterministic:
  assumes "\<forall>tr. provider env tr = f" and "cache_from f (cache st)"
  shows "fst (translate env x s t st) = translate_fn env tr' x s t"
    and "cache_from f (cache (snd (translate env x s t st)))"
proof -
  have fn: "translate_fn env tr x s t = f (translate_source s) t x" for tr
    using assms(1) by (simp add: translate_fn_def)
  show "fst (translate env x s t st) = translate_fn env tr' x s t"
  proof (cases "map_of (cache st) (x, s, t)")
    case (Some v)
    with assms(2) have "f (translate_source s) t x = Inr v"
      unfolding cache_from_def by blast
    with Some show ?thesis by (simp add: translate_def fn)
  next
    case None
    then show ?thesis
      by (simp add: translate_def fn split: sum.splits)
  qed
  show "cache_from f (cache (snd (translate env x s t st)))"
  proof (cases "map_of (cache st) (x, s, t)")
    case (Some v)
    with assms(2) show ?thesis by (simp add: translate_def)
  next
    case None
    show ?thesis
    proof (cases "f (translate_source s) t x")
      case (Inl e)
      with None assms(2) show ?thesis by (simp add: translate_def fn emit_def)
    next
      case (Inr v)
      with None assms(2) show ?thesis
        by (auto simp: translate_def fn emit_def cache_from_def)
    qed
  qed
qed


lemma translate_Inl_uncached:
  assumes "translate env x s t st = (Inl e, st1)"
  shows "map_of (cache st1) (x, s, t) = None"
  using assms by (auto simp: translate_def emit_def split: option.splits sum.splits)

lemma main_once_returned:
  assumes "main env cfg run uploaded c = Some (out, tr, sto)"
  shows "once_returned tr"
proof (cases "run \<and> (\<exists>name data d. uploaded = Some (name, data) \<and> fitz_open env data = Inr d)")
  case False
  with assms have "\<forall>ev\<in>set tr. \<not> is_translate (fst ev)"
    by (auto simp: main_def split: if_splits option.splits sum.splits)
  then show ?thesis by (rule once_returned_other)
next
  case True
  then obtain name data d where u: "run" "uploaded = Some (name, data)" "fitz_open env data = Inr d"
    by blast
  let ?st0 = "\<lparr>doc = d, cache = c, trace = [(FitzOpen, True)]\<rparr>"
  have "memo_inv cfg ?st0" by (rule memo_inv_fresh) simp
  then have "memo_inv cfg (snd (pipeline env cfg ?st0))" by (rule pipeline_memo_inv)
  moreover have "tr = trace (snd (pipeline env cfg ?st0))"
    using assms u by (auto simp: main_def split: prod.splits)
  ultimately show ?thesis by (simp add: memo_inv_def)
qed


section \<open>Blank blocks\<close>

text \<open>
  C2. A block whose extracted text is not a string, is empty or holds only whitespace
  is skipped: processing it leaves the whole state as it was, so there is no
  translation call, no cover rectangle and no text placement for it. (A tuple with
  fewer than five components has the text \<^verbatim>\<open>""\<close>.)
\<close>

theorem blank_block_skipped:
  assumes "(\<forall>s. block_text blk \<noteq> PStr s) \<or>
           (\<exists>s. block_text blk = PStr s \<and> (\<forall>c\<in>set s. isspace c))"
  shows "process_block env cfg ocg pno blk st = st"
  using assms by (auto simp: process_block_def strip_empty_iff split: pyval.splits)

theorem blank_block_skipped_witness:
  "process_block (ex_env (\<lambda>c. False) False) (ex_cfg False 2 2) 7 1 (ex_blk [CHR 0x20, CHR 0x09]) ex_state
     = ex_state"
proof -
  have "(\<forall>s. block_text (ex_blk [CHR 0x20, CHR 0x09]) \<noteq> PStr s) \<or>
        (\<exists>s. block_text (ex_blk [CHR 0x20, CHR 0x09]) = PStr s \<and> (\<forall>c\<in>set s. isspace c))"
    by (simp add: block_text_def ex_blk_def ex_box_def isspace_def)
  then show ?thesis by (rule blank_block_skipped)
qed


section \<open>The page range\<close>

text \<open>
  C5. When the 1-based start page exceeds the resolved end page (end 0 is the last
  page, a larger end is clamped to the last page), the run shows the error and stops:
  the document and the cache are as before, no layer was created and the only calls
  made are \<^verbatim>\<open>st.error\<close> and \<^verbatim>\<open>st.stop\<close>.
\<close>

theorem invalid_range_stops_unchanged:
  assumes "start_page cfg >
             (if end_page cfg = 0 then int (length (pages (doc st)))
              else min (int (length (pages (doc st)))) (end_page cfg))"
  shows "pipeline env cfg st =
           (Stopped,
            st\<lparr>trace := trace st @ [(StError ''Invalid page range.'', True), (StStop, True)]\<rparr>)"
  using assms by (auto simp: pipeline_def first_index_def last_index_def emit_def split: if_splits)

theorem invalid_range_stops_unchanged_witness:
  "pipeline (ex_env (\<lambda>c. False) False) (ex_cfg False 3 2) ex_state =
     (Stopped,
      ex_state\<lparr>trace := trace ex_state @ [(StError ''Invalid page range.'', True), (StStop, True)]\<rparr>)"
proof -
  have "start_page (ex_cfg False 3 2) >
          (if end_page (ex_cfg False 3 2) = 0 then int (length (pages (doc ex_state)))
           else min (int (length (pages (doc ex_state)))) (end_page (ex_cfg False 3 2)))"
    by (simp add: ex_defs)
  then show ?thesis by (rule invalid_range_stops_unchanged)
qed


section \<open>Failing extraction\<close>

text \<open>
  C10. When \<^verbatim>\<open>page.get_text\<close> raises on a page of the range, the exception is
  swallowed and the page is treated as having no blocks: the page ends without an
  exception, the document and the cache are unchanged, the only calls made for the page
  are the page load, the status line, the failed extraction and the progress update (no
  translation, no drawing), and the loop goes on with the next page.
\<close>

theorem extraction_failure_skips_page:
  assumes "0 \<le> pno" and "pno < int (length (pages (doc st)))"
      and "fails env (trace st) (LoadPage pno) = None"
      and "fails env (trace st @ [(LoadPage pno, True), (StStatus (pno + 1) (last_idx + 1), True)])
             (GetText pno) = Some e"
  shows "process_page env cfg ocg first_idx last_idx pno st =
           (None,
            st\<lparr>trace := trace st @
                 [(LoadPage pno, True), (StStatus (pno + 1) (last_idx + 1), True),
                  (GetText pno, False),
                  (StProgress (pno - first_idx + 1) (last_idx - first_idx + 1), True)]\<rparr>)
         \<and> process_pages env cfg ocg first_idx last_idx (pno # rest) st =
             process_pages env cfg ocg first_idx last_idx rest
               (st\<lparr>trace := trace st @
                 [(LoadPage pno, True), (StStatus (pno + 1) (last_idx + 1), True),
                  (GetText pno, False),
                  (StProgress (pno - first_idx + 1) (last_idx - first_idx + 1), True)]\<rparr>)"
  using assms by (simp add: process_page_def attempt_def emit_def)

theorem extraction_failure_skips_page_witness:
  "process_page (ex_env (\<lambda>c. c = GetText 1) False) (ex_cfg False 2 3) 7 1 2 1 ex_state =
     (None,
      ex_state\<lparr>trace := trace ex_state @
         [(LoadPage 1, True), (StStatus (1 + 1) (2 + 1), True), (GetText 1, False),
          (StProgress (1 - 1 + 1) (2 - 1 + 1), True)]\<rparr>)
   \<and> process_pages (ex_env (\<lambda>c. c = GetText 1) False) (ex_cfg False 2 3) 7 1 2 [1, 2] ex_state =
       process_pages (ex_env (\<lambda>c. c = GetText 1) False) (ex_cfg False 2 3) 7 1 2 [2]
         (ex_state\<lparr>trace := trace ex_state @
           [(LoadPage 1, True), (StStatus (1 + 1) (2 + 1), True), (GetText 1, False),
            (StProgress (1 - 1 + 1) (2 - 1 + 1), True)]\<rparr>)"
proof -
  have "(0::int) \<le> 1" and "1 < int (length (pages (doc ex_state)))"
    and "fails (ex_env (\<lambda>c. c = GetText 1) False) (trace ex_state) (LoadPage 1) = None"
    and "fails (ex_env (\<lambda>c. c = GetText 1) False)
           (trace ex_state @ [(LoadPage 1, True), (StStatus (1 + 1) (2 + 1), True)]) (GetText 1)
         = Some (Exn ''library'')"
    by (simp_all add: ex_defs)
  then show ?thesis by (rule extraction_failure_skips_page)
qed


section \<open>Failing translation\<close>

text \<open>
  C1. When the translation call raises for a block, the block is still processed (the
  exception does not leave the loop body, and the loop goes on with the next block), and
  what is drawn for it carries the original extracted text \<open>s\<close>, which is not empty:
  every call made after the failed translation is the cover rectangle, the text box with
  the text \<open>s\<close> or the styled box with the markup of \<open>s\<close>, and every item added to a
  page is the rectangle, the text box of \<open>s\<close> or the styled box of \<open>s\<close>.
\<close>

theorem translation_failure_keeps_original_text:
  assumes "block_text blk = PStr s" and "strip s \<noteq> []"
      and "translate env s (source_lang cfg) (target_lang cfg) st = (Inl e, st1)"
  shows "s \<noteq> [] \<and>
         (\<exists>new. trace (process_block env cfg ocg pno blk st) = trace st1 @ new \<and>
            (\<forall>ev\<in>set new. fst ev \<in>
               {DrawRect pno (block_bbox blk) ocg,
                InsertTextbox pno (block_bbox blk) s (min_font_size cfg) ocg,
                InsertHtmlbox pno (block_bbox blk) (text_to_html s)
                  (min_font_size cfg) (line_height cfg) ocg})) \<and>
         (\<forall>p<length (pages (doc st)).
            \<exists>its. overlay (pages (doc (process_block env cfg ocg pno blk st)) ! p)
                    = overlay (pages (doc st) ! p) @ its \<and>
                  set its \<subseteq>
                    {Rect (block_bbox blk) ocg,
                     Textbox (block_bbox blk) s (min_font_size cfg) ocg,
                     Htmlbox (block_bbox blk) (text_to_html s)
                       (min_font_size cfg) (line_height cfg) ocg}) \<and>
         fold (process_block env cfg ocg pno) (blk # rest) st
           = fold (process_block env cfg ocg pno) rest (process_block env cfg ocg pno blk st)"
proof -
  have ne: "s \<noteq> []" using assms(2) strip_Nil by auto
  have d: "doc st1 = doc st" using assms(3) by (rule translate_Inl)
  have pb: "process_block env cfg ocg pno blk st =
           (if fails env (trace st1) (DrawRect pno (block_bbox blk) ocg) = None
            then place_text env cfg ocg pno (block_bbox blk) s
                   (st1\<lparr>trace := trace st1 @ [(DrawRect pno (block_bbox blk) ocg, True)],
                        doc := add_item pno (Rect (block_bbox blk) ocg) (doc st1)\<rparr>)
            else st1\<lparr>trace := trace st1 @ [(DrawRect pno (block_bbox blk) ocg, False)]\<rparr>)"
    by (rule process_block_result[OF assms]) simp
  have tr: "\<exists>new. trace (process_block env cfg ocg pno blk st) = trace st1 @ new \<and>
            (\<forall>ev\<in>set new. fst ev \<in>
               {DrawRect pno (block_bbox blk) ocg,
                InsertTextbox pno (block_bbox blk) s (min_font_size cfg) ocg,
                InsertHtmlbox pno (block_bbox blk) (text_to_html s)
                  (min_font_size cfg) (line_height cfg) ocg})"
    unfolding pb place_text_result by simp
  have ov: "\<exists>its. overlay (pages (doc (process_block env cfg ocg pno blk st)) ! p)
                    = overlay (pages (doc st) ! p) @ its \<and>
                  set its \<subseteq>
                    {Rect (block_bbox blk) ocg,
                     Textbox (block_bbox blk) s (min_font_size cfg) ocg,
                     Htmlbox (block_bbox blk) (text_to_html s)
                       (min_font_size cfg) (line_height cfg) ocg}"
    if "p < length (pages (doc st))" for p
    unfolding pb place_text_result using that d
    by (auto simp: overlay_add_item length_add_item)
  show ?thesis using ne tr ov by simp
qed

theorem translation_failure_keeps_original_text_witness:
  "''two'' \<noteq> [] \<and>
   trace (process_block (ex_env (\<lambda>c. False) True) (ex_cfg False 2 2) 7 1 (ex_blk ''two'') ex_state)
     = trace ex_state @
         [(Translate ''auto'' ''es'' ''two'', False), (DrawRect 1 ex_box 7, True),
          (InsertHtmlbox 1 ex_box (text_to_html ''two'') (19 / 2) (5 / 4) 7, True)]"
proof -
  have h1: "block_text (ex_blk ''two'') = PStr ''two''"
    by (rule ex_two)
  have h2: "strip ''two'' \<noteq> []"
    by (simp add: strip_two)
  have h3: "translate (ex_env (\<lambda>c. False) True) ''two'' (source_lang (ex_cfg False 2 2))
              (target_lang (ex_cfg False 2 2)) ex_state
            = (Inl (Exn ''provider''), emit (Translate ''auto'' ''es'' ''two'') False ex_state)"
    by (simp add: translate_def translate_fn_def translate_source_def strip_def isspace_def
          ex_state_def ex_cfg_def ex_env_def)
  have ev: "trace (process_block (ex_env (\<lambda>c. False) True) (ex_cfg False 2 2) 7 1 (ex_blk ''two'') ex_state)
     = trace ex_state @
         [(Translate ''auto'' ''es'' ''two'', False), (DrawRect 1 ex_box 7, True),
          (InsertHtmlbox 1 ex_box (text_to_html ''two'') (19 / 2) (5 / 4) 7, True)]"
    unfolding process_block_result[OF h1 h2 h3, of "''two''", simplified] place_text_result
    by (simp add: ex_two emit_def ex_cfg_def ex_env_def)
  from translation_failure_keeps_original_text[OF h1 h2 h3, of 7 1 "[]"] ev
  show ?thesis
    by blast
qed


section \<open>Text placement and its fallback\<close>

text \<open>
  C6. In styled mode, when \<^verbatim>\<open>insert_htmlbox\<close> raises for a block whose cover
  rectangle was drawn, the same block is tried exactly once more through
  \<^verbatim>\<open>insert_textbox\<close>, with the same box and the same translated text: the calls made
  for the block after the translation are the rectangle, the failed styled placement and
  one text-box placement. If that one raises too, the page has gained the white
  rectangle and nothing else; if it returns, the rectangle and the text box. Either way
  the loop goes on with the next block.
\<close>

theorem styled_failure_retried_once_as_textbox:
  assumes "\<not> use_textbox cfg"
      and "block_text blk = PStr s" and "strip s \<noteq> []"
      and "translate env s (source_lang cfg) (target_lang cfg) st = (r, st1)"
      and "(case r of Inl e \<Rightarrow> PStr s | Inr v \<Rightarrow> v) = PStr t"
      and "fails env (trace st1) (DrawRect pno (block_bbox blk) ocg) = None"
      and "fails env (trace st1 @ [(DrawRect pno (block_bbox blk) ocg, True)])
             (InsertHtmlbox pno (block_bbox blk) (text_to_html t)
                (min_font_size cfg) (line_height cfg) ocg) = Some e"
  shows "trace (process_block env cfg ocg pno blk st) =
           trace st1 @
             [(DrawRect pno (block_bbox blk) ocg, True),
              (InsertHtmlbox pno (block_bbox blk) (text_to_html t)
                 (min_font_size cfg) (line_height cfg) ocg, False),
              (InsertTextbox pno (block_bbox blk) t (min_font_size cfg) ocg,
               fails env
                 (trace st1 @
                    [(DrawRect pno (block_bbox blk) ocg, True),
                     (InsertHtmlbox pno (block_bbox blk) (text_to_html t)
                        (min_font_size cfg) (line_height cfg) ocg, False)])
                 (InsertTextbox pno (block_bbox blk) t (min_font_size cfg) ocg) = None)]
         \<and> doc (process_block env cfg ocg pno blk st) =
             (if fails env
                   (trace st1 @
                      [(DrawRect pno (block_bbox blk) ocg, True),
                       (InsertHtmlbox pno (block_bbox blk) (text_to_html t)
                          (min_font_size cfg) (line_height cfg) ocg, False)])
                   (InsertTextbox pno (block_bbox blk) t (min_font_size cfg) ocg) = None
              then add_item pno (Textbox (block_bbox blk) t (min_font_size cfg) ocg)
                     (add_item pno (Rect (block_bbox blk) ocg) (doc st1))
              else add_item pno (Rect (block_bbox blk) ocg) (doc st1))
         \<and> cache (process_block env cfg ocg pno blk st) = cache st1
         \<and> fold (process_block env cfg ocg pno) (blk # rest) st
             = fold (process_block env cfg ocg pno) rest (process_block env cfg ocg pno blk st)"
proof -
  have "process_block env cfg ocg pno blk st =
          (if fails env
                (trace st1 @
                   [(DrawRect pno (block_bbox blk) ocg, True),
                    (InsertHtmlbox pno (block_bbox blk) (text_to_html t)
                       (min_font_size cfg) (line_height cfg) ocg, False)])
                (InsertTextbox pno (block_bbox blk) t (min_font_size cfg) ocg) = None
           then st1\<lparr>trace := trace st1 @
                       [(DrawRect pno (block_bbox blk) ocg, True),
                        (InsertHtmlbox pno (block_bbox blk) (text_to_html t)
                           (min_font_size cfg) (line_height cfg) ocg, False),
                        (InsertTextbox pno (block_bbox blk) t (min_font_size cfg) ocg, True)],
                     doc := add_item pno (Textbox (block_bbox blk) t (min_font_size cfg) ocg)
                              (add_item pno (Rect (block_bbox blk) ocg) (doc st1))\<rparr>
           else st1\<lparr>trace := trace st1 @
                       [(DrawRect pno (block_bbox blk) ocg, True),
                        (InsertHtmlbox pno (block_bbox blk) (text_to_html t)
                           (min_font_size cfg) (line_height cfg) ocg, False),
                        (InsertTextbox pno (block_bbox blk) t (min_font_size cfg) ocg, False)],
                     doc := add_item pno (Rect (block_bbox blk) ocg) (doc st1)\<rparr>)"
    unfolding process_block_result[OF assms(2,3,4,5)] place_text_result
    using assms(1,6,7) by simp
  then show ?thesis by simp
qed

theorem styled_failure_retried_once_as_textbox_witness:
  "trace (process_block (ex_env placement False) (ex_cfg False 2 2) 7 1 (ex_blk ''two'') ex_state)
     = trace ex_state @
         [(Translate ''auto'' ''es'' ''two'', True), (DrawRect 1 ex_box 7, True),
          (InsertHtmlbox 1 ex_box (text_to_html ''es:two'') (19 / 2) (5 / 4) 7, False),
          (InsertTextbox 1 ex_box ''es:two'' (19 / 2) 7, False)]
   \<and> doc (process_block (ex_env placement False) (ex_cfg False 2 2) 7 1 (ex_blk ''two'') ex_state)
       = add_item 1 (Rect ex_box 7) ex_doc"
proof -
  let ?st1 = "ex_state\<lparr>trace := trace ex_state @ [(Translate ''auto'' ''es'' ''two'', True)],
                  cache := [((''two'', ''auto'', ''es''), PStr ''es:two'')]\<rparr>"
  have h1: "\<not> use_textbox (ex_cfg False 2 2)"
    by (simp add: ex_cfg_def)
  have h2: "block_text (ex_blk ''two'') = PStr ''two''"
    by (rule ex_two)
  have h3: "strip ''two'' \<noteq> []"
    by (simp add: strip_two)
  have h5: "(case Inr (PStr ''es:two'') of Inl e \<Rightarrow> PStr ''two'' | Inr v \<Rightarrow> v) = PStr ''es:two''"
    by simp
  have h6: "fails (ex_env placement False) (trace ?st1) (DrawRect 1 (block_bbox (ex_blk ''two'')) 7) = None"
    by (simp add: ex_env_def)
  have h7: "fails (ex_env placement False)
              (trace ?st1 @ [(DrawRect 1 (block_bbox (ex_blk ''two'')) 7, True)])
              (InsertHtmlbox 1 (block_bbox (ex_blk ''two'')) (text_to_html ''es:two'')
                 (min_font_size (ex_cfg False 2 2)) (line_height (ex_cfg False 2 2)) 7)
            = Some (Exn ''library'')"
    by (simp add: ex_env_def)
  from styled_failure_retried_once_as_textbox[OF h1 h2 h3 ex_translate_ok h5 h6 h7, of "[]"]
  show ?thesis
    by (simp add: ex_two ex_env_def ex_cfg_def ex_state_def)
qed

text \<open>
  C7 as stated (no failed operation is re-attempted, in both rendering modes) fails in
  text-box mode: when \<^verbatim>\<open>insert_textbox\<close> raises, the handler calls
  \<^verbatim>\<open>insert_textbox\<close> again with the same arguments.
\<close>

theorem textbox_mode_retries_counterexample:
  "trace (process_block (ex_env is_insert_textbox False) (ex_cfg True 2 2) 7 1 (ex_blk ''two'') ex_state)
     = trace ex_state @
        [(Translate ''auto'' ''es'' ''two'', True), (DrawRect 1 ex_box 7, True),
         (InsertTextbox 1 ex_box ''es:two'' (19 / 2) 7, False),
         (InsertTextbox 1 ex_box ''es:two'' (19 / 2) 7, False)]"
  unfolding process_block_result[OF ex_two(1) _ ex_translate_ok, of "''es:two''", simplified strip_two, simplified]
    place_text_result
  by (simp add: ex_two ex_env_def ex_cfg_def ex_state_def)

text \<open>
  C7, amended. Among the calls made for one block, in styled mode no call occurs twice,
  so no failed operation is attempted again; in both modes no call other than
  \<^verbatim>\<open>insert_textbox\<close> occurs twice (a failed translation or cover rectangle is never
  attempted again), and \<^verbatim>\<open>insert_textbox\<close> is called at most twice.
\<close>

theorem no_retry_outside_textbox_mode:
  "\<exists>new. trace (process_block env cfg ocg pno blk st) = trace st @ new \<and>
      (\<not> use_textbox cfg \<longrightarrow> distinct (map fst new)) \<and>
      distinct (map fst (filter (\<lambda>ev. \<not> is_insert_textbox (fst ev)) new)) \<and>
      length (filter (\<lambda>ev. is_insert_textbox (fst ev)) new) \<le> 2"
proof -
  let ?dr = "DrawRect pno (block_bbox blk) ocg"
  let ?pr = "\<lambda>t. if use_textbox cfg
                     then InsertTextbox pno (block_bbox blk) t (min_font_size cfg) ocg
                     else InsertHtmlbox pno (block_bbox blk) (text_to_html t)
                            (min_font_size cfg) (line_height cfg) ocg"
  let ?tb = "\<lambda>t. InsertTextbox pno (block_bbox blk) t (min_font_size cfg) ocg"
  let ?P = "\<lambda>new. (\<not> use_textbox cfg \<longrightarrow> distinct (map fst new)) \<and>
      distinct (map fst (filter (\<lambda>ev. \<not> is_insert_textbox (fst ev)) new)) \<and>
      length (filter (\<lambda>ev. is_insert_textbox (fst ev)) new) \<le> 2"
  obtain tn new where e:
     "trace (process_block env cfg ocg pno blk st) = trace st @ tn @ new"
     "tn = [] \<or> (\<exists>c ok. is_translate c \<and> tn = [(c, ok)])"
     "new = [] \<or>
      (\<exists>a. new = [(?dr, a)]) \<or>
      (\<exists>t a. new = [(?dr, True), (?pr t, a)]) \<or>
      (\<exists>t a. new = [(?dr, True), (?pr t, False), (?tb t, a)])"
    using process_block_events[of env cfg ocg pno blk st] by blast
  have q: "?P new \<and> (\<forall>ev\<in>set new. \<not> is_translate (fst ev))"
    using e(3) by (elim disjE exE) (simp_all split: if_splits)
  have "?P (tn @ new)"
  proof (cases "tn = []")
    case True
    with q show ?thesis by simp
  next
    case False
    with e(2) obtain c ok where c: "is_translate c" "tn = [(c, ok)]" by blast
    have "c \<notin> fst ` set new" using q c(1) by auto
    moreover have "\<not> is_insert_textbox c" using c(1) by (cases c) simp_all
    ultimately show ?thesis using q c(2) by auto
  qed
  with e(1) show ?thesis by blast
qed

theorem no_retry_outside_textbox_mode_witness:
  "distinct (map fst (drop (length (trace ex_state))
     (trace (process_block (ex_env placement False) (ex_cfg False 2 2) 7 1 (ex_blk ''two'') ex_state))))"
proof -
  obtain new where n:
      "trace (process_block (ex_env placement False) (ex_cfg False 2 2) 7 1 (ex_blk ''two'') ex_state)
         = trace ex_state @ new"
      "\<not> use_textbox (ex_cfg False 2 2) \<longrightarrow> distinct (map fst new)"
    using no_retry_outside_textbox_mode
            [of "ex_env placement False" "ex_cfg False 2 2" 7 1 "ex_blk ''two''" ex_state]
    by blast
  have "distinct (map fst new)"
    using n(2) by (simp add: ex_cfg_def)
  then show ?thesis
    using n(1) by simp
qed


section \<open>The frame of a run\<close>

text \<open>
  C4. Whatever the document and the requested range, the document after the run has as
  many pages as before, every page outside the inclusive range \<open>first_index\<close> to
  \<open>last_index\<close> is exactly as it was (same content, nothing drawn on it), and every
  call of the run that addresses a page (load, extraction, rectangle, text placement)
  addresses a page inside the range.
\<close>

theorem pages_outside_range_untouched:
  "length (pages (doc (snd (pipeline env cfg st)))) = length (pages (doc st)) \<and>
   (\<forall>p<length (pages (doc st)).
      int p < first_index cfg \<or> last_index cfg (int (length (pages (doc st)))) < int p \<longrightarrow>
      pages (doc (snd (pipeline env cfg st))) ! p = pages (doc st) ! p) \<and>
   (\<exists>new. trace (snd (pipeline env cfg st)) = trace st @ new \<and>
      (\<forall>ev\<in>set new. \<forall>p. call_page (fst ev) = Some p \<longrightarrow>
          first_index cfg \<le> p \<and> p \<le> last_index cfg (int (length (pages (doc st))))))"
proof -
  let ?lo = "first_index cfg" and ?hi = "last_index cfg (int (length (pages (doc st))))"
  let ?G = "\<lambda>st'. length (pages (doc st')) = length (pages (doc st)) \<and>
     (\<forall>p<length (pages (doc st)). int p < ?lo \<or> ?hi < int p \<longrightarrow>
        pages (doc st') ! p = pages (doc st) ! p) \<and>
     (\<exists>new. trace st' = trace st @ new \<and>
        (\<forall>ev\<in>set new. \<forall>p. call_page (fst ev) = Some p \<longrightarrow> ?lo \<le> p \<and> p \<le> ?hi))"
  have loop: "?G st2"
    if "steps env cfg ocg ?lo ?hi
          (st\<lparr>trace := trace st @ [(AddOcg (layer_name cfg), True)],
              doc := (doc st)\<lparr>ocgs := ocgs (doc st) @ [(ocg, layer_name cfg)]\<rparr>\<rparr>) st2"
    for ocg st2
  proof -
    let ?st1 = "st\<lparr>trace := trace st @ [(AddOcg (layer_name cfg), True)],
              doc := (doc st)\<lparr>ocgs := ocgs (doc st) @ [(ocg, layer_name cfg)]\<rparr>\<rparr>"
    from that have re: "run_ext ocg ?lo ?hi ?st1 st2" by (rule steps_run_ext)
    then have de: "doc_ext ocg ?lo ?hi (doc ?st1) (doc st2)"
      by (simp add: run_ext_def)
    from re obtain new where new: "trace st2 = trace ?st1 @ new"
        "\<forall>ev\<in>set new. is_translate (fst ev) \<or> loop_call ocg ?lo ?hi (fst ev)"
      unfolding run_ext_def by blast
    have 1: "length (pages (doc st2)) = length (pages (doc st))"
      using de by (simp add: doc_ext_def)
    have 2: "pages (doc st2) ! p = pages (doc st) ! p"
      if "p < length (pages (doc st))" "int p < ?lo \<or> ?hi < int p" for p
      using doc_ext_outside[OF de, of p] that by simp
    have 3: "trace st2 = trace st @ ((AddOcg (layer_name cfg), True) # new)"
      using new(1) by simp
    have 4: "\<forall>ev\<in>set ((AddOcg (layer_name cfg), True) # new).
               \<forall>p. call_page (fst ev) = Some p \<longrightarrow> ?lo \<le> p \<and> p \<le> ?hi"
    proof (intro ballI allI impI)
      fix ev p
      assume a: "ev \<in> set ((AddOcg (layer_name cfg), True) # new)" "call_page (fst ev) = Some p"
      then have "ev \<in> set new" by auto
      with new(2) have "is_translate (fst ev) \<or> loop_call ocg ?lo ?hi (fst ev)" by blast
      then show "?lo \<le> p \<and> p \<le> ?hi" using a(2) by (rule loop_call_page)
    qed
    show ?thesis using 1 2 3 4 by blast
  qed
  show ?thesis
  proof (cases env cfg st rule: pipeline_cases)
    case stopped
    then show ?thesis by simp
  next
    case (no_layer e)
    then show ?thesis by simp
  next
    case (crashed ocg e st2)
    with loop[OF crashed(2)] show ?thesis by simp
  next
    case (finished ocg st2)
    from loop[OF finished(2)] obtain new where g:
      "length (pages (doc st2)) = length (pages (doc st))"
      "\<forall>p<length (pages (doc st)). int p < ?lo \<or> ?hi < int p \<longrightarrow>
        pages (doc st2) ! p = pages (doc st) ! p"
      "trace st2 = trace st @ new"
      "\<forall>ev\<in>set new. \<forall>p. call_page (fst ev) = Some p \<longrightarrow> ?lo \<le> p \<and> p \<le> ?hi"
      by blast
    obtain fin where fin: "trace (snd (finish env st2)) = trace st2 @ fin"
      "\<forall>ev\<in>set fin. fst ev \<in> {SubsetFonts, EzSave, Close, StSuccess, StDownload}"
      using finish_trace[of env st2] by blast
    have "trace (snd (finish env st2)) = trace st @ (new @ fin)"
      using g(3) fin(1) by simp
    moreover have "\<forall>ev\<in>set (new @ fin). \<forall>p. call_page (fst ev) = Some p \<longrightarrow> ?lo \<le> p \<and> p \<le> ?hi"
      using g(4) fin(2) by auto
    ultimately have "\<exists>n. trace (snd (finish env st2)) = trace st @ n \<and>
        (\<forall>ev\<in>set n. \<forall>p. call_page (fst ev) = Some p \<longrightarrow> ?lo \<le> p \<and> p \<le> ?hi)"
      by blast
    with g(1,2) finished(3) show ?thesis
      by (simp add: finish_doc)
  qed
qed

theorem pages_outside_range_untouched_witness:
  "length (pages (doc (snd (pipeline (ex_env (\<lambda>c. False) False) (ex_cfg False 2 2) ex_state)))) = 3 \<and>
   pages (doc (snd (pipeline (ex_env (\<lambda>c. False) False) (ex_cfg False 2 2) ex_state))) ! 0
     = pages ex_doc ! 0 \<and>
   pages (doc (snd (pipeline (ex_env (\<lambda>c. False) False) (ex_cfg False 2 2) ex_state))) ! 2
     = pages ex_doc ! 2"
proof -
  note t = pages_outside_range_untouched[of "ex_env (\<lambda>c. False) False" "ex_cfg False 2 2" ex_state]
  have lo: "first_index (ex_cfg False 2 2) = 1"
    by (simp add: first_index_def ex_cfg_def)
  have hi: "last_index (ex_cfg False 2 2) 3 = 1"
    by (simp add: last_index_def ex_cfg_def)
  have n: "length (pages (doc ex_state)) = 3" and d: "doc ex_state = ex_doc"
    by (simp_all add: ex_defs)
  from t have 1: "length (pages (doc (snd (pipeline (ex_env (\<lambda>c. False) False) (ex_cfg False 2 2) ex_state))))
      = length (pages (doc ex_state))"
    by blast
  from t have 2: "\<forall>p<length (pages (doc ex_state)).
      int p < first_index (ex_cfg False 2 2) \<or>
      last_index (ex_cfg False 2 2) (int (length (pages (doc ex_state)))) < int p \<longrightarrow>
      pages (doc (snd (pipeline (ex_env (\<lambda>c. False) False) (ex_cfg False 2 2) ex_state))) ! p
        = pages (doc ex_state) ! p"
    by blast
  have "pages (doc (snd (pipeline (ex_env (\<lambda>c. False) False) (ex_cfg False 2 2) ex_state))) ! 0
        = pages (doc ex_state) ! 0"
    using 2[rule_format, of 0] by (simp add: lo hi n)
  moreover have "pages (doc (snd (pipeline (ex_env (\<lambda>c. False) False) (ex_cfg False 2 2) ex_state))) ! 2
        = pages (doc ex_state) ! 2"
    using 2[rule_format, of 2] by (simp add: lo hi n)
  ultimately show ?thesis using 1 n d by simp
qed

text \<open>
  C8. A run creates at most one layer, and exactly one when it completes. There is one
  xref \<open>x\<close> such that every item the run adds to any page carries \<open>x\<close>, and \<open>x\<close>
  is the layer the run appended to the document's layers unless the run changed nothing
  at all. Pages are never removed, the content of every page stays, and what was drawn
  on a page before stays in front of what the run appends.
\<close>

theorem single_overlay_layer:
  "\<exists>x. length (pages (doc (snd (pipeline env cfg st)))) = length (pages (doc st)) \<and>
       (\<forall>p<length (pages (doc st)).
          content (pages (doc (snd (pipeline env cfg st))) ! p) = content (pages (doc st) ! p) \<and>
          (\<exists>its. overlay (pages (doc (snd (pipeline env cfg st))) ! p)
                   = overlay (pages (doc st) ! p) @ its \<and>
                 (\<forall>i\<in>set its. item_oc i = x))) \<and>
       (ocgs (doc (snd (pipeline env cfg st))) = ocgs (doc st) @ [(x, layer_name cfg)] \<or>
        doc (snd (pipeline env cfg st)) = doc st) \<and>
       (fst (pipeline env cfg st) = Completed \<longrightarrow>
          ocgs (doc (snd (pipeline env cfg st))) = ocgs (doc st) @ [(x, layer_name cfg)] \<and>
          length (filter (\<lambda>ev. is_add_ocg (fst ev))
                    (drop (length (trace st)) (trace (snd (pipeline env cfg st))))) = 1) \<and>
       length (filter (\<lambda>ev. is_add_ocg (fst ev))
                 (drop (length (trace st)) (trace (snd (pipeline env cfg st))))) \<le> 1"
proof -
  let ?lo = "first_index cfg" and ?hi = "last_index cfg (int (length (pages (doc st))))"
  let ?D = "\<lambda>x st'. length (pages (doc st')) = length (pages (doc st)) \<and>
       (\<forall>p<length (pages (doc st)).
          content (pages (doc st') ! p) = content (pages (doc st) ! p) \<and>
          (\<exists>its. overlay (pages (doc st') ! p) = overlay (pages (doc st) ! p) @ its \<and>
                 (\<forall>i\<in>set its. item_oc i = x)))"
  let ?N = "\<lambda>st'. length (filter (\<lambda>ev. is_add_ocg (fst ev)) (drop (length (trace st)) (trace st')))"
  have loop: "?D ocg st2 \<and> ocgs (doc st2) = ocgs (doc st) @ [(ocg, layer_name cfg)] \<and> ?N st2 = 1"
    if "steps env cfg ocg ?lo ?hi
          (st\<lparr>trace := trace st @ [(AddOcg (layer_name cfg), True)],
              doc := (doc st)\<lparr>ocgs := ocgs (doc st) @ [(ocg, layer_name cfg)]\<rparr>\<rparr>) st2"
    for ocg st2
  proof -
    let ?st1 = "st\<lparr>trace := trace st @ [(AddOcg (layer_name cfg), True)],
              doc := (doc st)\<lparr>ocgs := ocgs (doc st) @ [(ocg, layer_name cfg)]\<rparr>\<rparr>"
    from that have re: "run_ext ocg ?lo ?hi ?st1 st2" by (rule steps_run_ext)
    then have de: "doc_ext ocg ?lo ?hi (doc ?st1) (doc st2)"
      by (simp add: run_ext_def)
    from re obtain new where new: "trace st2 = trace ?st1 @ new"
        "\<forall>ev\<in>set new. is_translate (fst ev) \<or> loop_call ocg ?lo ?hi (fst ev)"
      unfolding run_ext_def by blast
    have 1: "?D ocg st2"
      using de unfolding doc_ext_def by (simp, blast)
    have 2: "ocgs (doc st2) = ocgs (doc st) @ [(ocg, layer_name cfg)]"
      using de by (simp add: doc_ext_def)
    have "filter (\<lambda>ev. is_add_ocg (fst ev)) new = []"
      using new(2) loop_call_no_layer by (fastforce simp: filter_empty_conv)
    then have 3: "?N st2 = 1"
      using new(1) by simp
    show ?thesis using 1 2 3 by blast
  qed
  show ?thesis
  proof (cases env cfg st rule: pipeline_cases)
    case stopped
    then show ?thesis by simp
  next
    case (no_layer e)
    then show ?thesis by simp
  next
    case (crashed ocg e st2)
    with loop[OF crashed(2)] show ?thesis
      by (intro exI[of _ ocg]) simp
  next
    case (finished ocg st2)
    obtain fin where fin: "trace (snd (finish env st2)) = trace st2 @ fin"
      "\<forall>ev\<in>set fin. fst ev \<in> {SubsetFonts, EzSave, Close, StSuccess, StDownload}"
      using finish_trace[of env st2] by blast
    have f0: "filter (\<lambda>ev. is_add_ocg (fst ev)) fin = []"
      using fin(2) by (fastforce simp: filter_empty_conv)
    from loop[OF finished(2)] have l: "?D ocg st2"
      "ocgs (doc st2) = ocgs (doc st) @ [(ocg, layer_name cfg)]" "?N st2 = 1"
      by blast+
    obtain new where new: "trace st2 = trace st @ new"
      using steps_run_ext[OF finished(2)] by (auto simp: run_ext_def)
    have n: "?N (snd (finish env st2)) = 1"
      using l(3) fin(1) f0 new by simp
    have "?D ocg (snd (finish env st2))"
      using l(1) by (simp add: finish_doc)
    with l(2) n finished(3) show ?thesis
      by (intro exI[of _ ocg]) (simp add: finish_doc)
  qed
qed

theorem single_overlay_layer_witness:
  "length (filter (\<lambda>ev. is_add_ocg (fst ev))
      (drop (length (trace ex_state))
         (trace (snd (pipeline (ex_env (\<lambda>c. False) False) (ex_cfg False 2 2) ex_state))))) = 1 \<and>
   (\<exists>x. ocgs (doc (snd (pipeline (ex_env (\<lambda>c. False) False) (ex_cfg False 2 2) ex_state)))
          = ocgs (doc ex_state) @ [(x, layer_name (ex_cfg False 2 2))])"
  using single_overlay_layer[of "ex_env (\<lambda>c. False) False" "ex_cfg False 2 2" ex_state]
    ex_run_completed
  by blast


section \<open>Closing the document\<close>

text \<open>
  C9 says that the document is closed at the end of every run that opened it, whether
  the run succeeds or an operation raises. The script calls \<^verbatim>\<open>doc.close()\<close> on line
  161 only, after the export: by \<open>closed_iff_completed\<close> the document is closed exactly
  when the run completes. In the sample run below \<^verbatim>\<open>doc.ez_save\<close> raises; the run
  ends with that exception and the document is still open.
\<close>

theorem export_failure_leaves_document_open:
  "fst (pipeline (ex_env (\<lambda>c. c = EzSave) False) (ex_cfg False 2 2) ex_state)
     = Crashed (Exn ''library'') \<and>
   \<not> is_closed (doc (snd (pipeline (ex_env (\<lambda>c. c = EzSave) False) (ex_cfg False 2 2) ex_state)))"
proof -
  have c: "fst (pipeline (ex_env (\<lambda>c. c = EzSave) False) (ex_cfg False 2 2) ex_state)
     = Crashed (Exn ''library'')"
    by (simp add: run_defs ex_defs)
  moreover have "\<not> is_closed (doc ex_state)"
    by (simp add: ex_defs)
  ultimately show ?thesis
    by (simp add: closed_iff_completed)
qed


section \<open>The memoized translation\<close>

text \<open>
  C3 as stated (within one run the provider is invoked at most once for every triple)
  fails when the provider raises: \<^verbatim>\<open>st.cache_data\<close> stores returned values only, so
  the next block with the same text asks the provider again. In the sample run the
  provider is down and page 2 holds the text \<^verbatim>\<open>two\<close> in two blocks: the provider is
  called twice with the same triple.
\<close>

theorem failing_provider_called_twice_counterexample:
  "length (filter (\<lambda>ev. fst ev = Translate ''auto'' ''es'' ''two'')
     (trace (snd (pipeline (ex_env (\<lambda>c. False) True) (ex_cfg False 2 2) ex_state)))) = 2"
  by (simp add: run_defs ex_defs)

text \<open>
  C3, amended. A call of the memoized function that returned a value is answered from
  the cache when it is repeated with the same triple: the same value, and a state with
  no new provider call (whatever the provider would do now). A call that raises leaves
  the cache as it was, without an entry for the triple. Within one run, started from a
  trace without provider calls, no provider call follows a provider call with the same
  arguments that returned. For a provider that answers deterministically, with a
  cache filled from it, the memoized function returns what the function under the
  decorator returns, and the cache stays filled from the provider.
\<close>

theorem memoized_translation:
  "(translate env x s t st = (Inr v, st1) \<longrightarrow> translate env' x s t st1 = (Inr v, st1)) \<and>
   (translate env x s t st = (Inl e, st1) \<longrightarrow>
       cache st1 = cache st \<and> map_of (cache st1) (x, s, t) = None) \<and>
   ((\<forall>ev\<in>set (trace st). \<not> is_translate (fst ev)) \<longrightarrow>
       once_returned (trace (snd (pipeline env cfg st)))) \<and>
   ((\<forall>tr. provider env tr = f) \<and> cache_from f (cache st) \<longrightarrow>
       fst (translate env x s t st) = translate_fn env tr' x s t \<and>
       cache_from f (cache (snd (translate env x s t st))))"
proof (intro conjI impI)
  assume "translate env x s t st = (Inr v, st1)"
  then show "translate env' x s t st1 = (Inr v, st1)" by (rule translate_again)
next
  assume a: "translate env x s t st = (Inl e, st1)"
  then show "cache st1 = cache st" by (rule translate_Inl)
  from a show "map_of (cache st1) (x, s, t) = None" by (rule translate_Inl_uncached)
next
  assume "\<forall>ev\<in>set (trace st). \<not> is_translate (fst ev)"
  then have "memo_inv cfg st" by (rule memo_inv_fresh)
  then have "memo_inv cfg (snd (pipeline env cfg st))" by (rule pipeline_memo_inv)
  then show "once_returned (trace (snd (pipeline env cfg st)))" by (simp add: memo_inv_def)
next
  assume a: "(\<forall>tr. provider env tr = f) \<and> cache_from f (cache st)"
  then show "fst (translate env x s t st) = translate_fn env tr' x s t"
    using translate_deterministic(1) by blast
  from a show "cache_from f (cache (snd (translate env x s t st)))"
    using translate_deterministic(2) by blast
qed

theorem memoized_translation_witness:
  "translate (ex_env (\<lambda>c. False) False) ''two'' ''auto'' ''es''
      (ex_state\<lparr>trace := trace ex_state @ [(Translate ''auto'' ''es'' ''two'', True)],
                cache := [((''two'', ''auto'', ''es''), PStr ''es:two'')]\<rparr>)
     = (Inr (PStr ''es:two''),
        ex_state\<lparr>trace := trace ex_state @ [(Translate ''auto'' ''es'' ''two'', True)],
                  cache := [((''two'', ''auto'', ''es''), PStr ''es:two'')]\<rparr>) \<and>
   once_returned (trace (snd (pipeline (ex_env (\<lambda>c. False) False) (ex_cfg False 2 2) ex_state))) \<and>
   fst (translate (ex_env (\<lambda>c. False) False) ''two'' ''auto'' ''es'' ex_state)
     = translate_fn (ex_env (\<lambda>c. False) False) [] ''two'' ''auto'' ''es''"
proof -
  let ?E = "ex_env (\<lambda>c. False) False"
  let ?f = "\<lambda>s t x. (Inr (PStr (''es:'' @ x)) :: exn + pyval)"
  let ?st1 = "ex_state\<lparr>trace := trace ex_state @ [(Translate ''auto'' ''es'' ''two'', True)],
                cache := [((''two'', ''auto'', ''es''), PStr ''es:two'')]\<rparr>"
  note t = memoized_translation[of ?E "''two''" "''auto''" "''es''" ex_state "PStr ''es:two''" ?st1
             ?E _ "ex_cfg False 2 2" ?f "[]"]
  have h1: "translate ?E ''two'' ''auto'' ''es'' ex_state = (Inr (PStr ''es:two''), ?st1)"
    using ex_translate_ok[of "\<lambda>c. False" False 2 2] by (simp add: ex_cfg_def)
  have h2: "\<forall>ev\<in>set (trace ex_state). \<not> is_translate (fst ev)"
    by (simp add: ex_state_def)
  have h3: "(\<forall>tr. provider ?E tr = ?f) \<and> cache_from ?f (cache ex_state)"
    by (simp add: ex_env_def ex_state_def cache_from_def)
  from t h1 h2 h3 show ?thesis by blast
qed

end
